theory Spec2Isabelle
  imports Complex_Main "HOL-Library.Multiset" "HOL-Library.Log_Nat"
begin

section \<open>Outcomes of a call\<close>

text \<open>
  A Go call either returns, panics (a run-time error that ends the process) or never
  returns. The three are kept apart in the model so that no branch of the source is
  lost in a total HOL function.
\<close>

datatype 'a outcome = Returns 'a | Panics | Hangs

section \<open>The event generator (package generator)\<close>

text \<open>
  \<^verbatim>\<open>type Event struct { ID string; UserID int64; EventType string; Payload string;
  CreatedAt time.Time }\<close>. \<open>CreatedAt\<close> is kept as its Unix time in nanoseconds.
\<close>

record Event =
  ID :: string
  UserID :: int
  EventType :: string
  Payload :: string
  CreatedAt :: int

text \<open>
  \<^verbatim>\<open>type Generator struct { totalEvents, batchSize, current int; rand *rand.Rand }\<close>.
  The random source and the clock are outside the program: what they hand to the
  \<open>k\<close>-th call of \<open>generateEvent\<close> is the \<open>k\<close>-th element of a stream of
  \<open>draws\<close>, a parameter of every function that generates events.
\<close>

record Generator =
  totalEvents :: int
  batchSize :: int
  current :: int

definition New :: "int \<Rightarrow> int \<Rightarrow> Generator" where
  "New n bs = \<lparr>totalEvents = n, batchSize = bs, current = 0\<rparr>"

definition eventTypes :: "string list" where
  "eventTypes = [''page_view'', ''button_click'', ''form_submit'', ''api_call'', ''error'',
     ''login'', ''logout'', ''purchase'', ''add_to_cart'', ''search'']"

text \<open>
  What one call of \<open>generateEvent\<close> reads from outside, in the order of the source:
  \<open>d_days\<close> is \<^verbatim>\<open>int(-math.Log(1-g.rand.Float64()) / lambda)\<close>, \<open>d_hours\<close>,
  \<open>d_minutes\<close>, \<open>d_seconds\<close> are \<^verbatim>\<open>Intn(24)\<close>, \<^verbatim>\<open>Intn(60)\<close>, \<^verbatim>\<open>Intn(60)\<close>,
  \<open>d_now\<close> is \<^verbatim>\<open>time.Now()\<close> in Unix nanoseconds, \<open>d_id\<close> is \<^verbatim>\<open>Int63()\<close>,
  \<open>d_user\<close> is \<^verbatim>\<open>Int63n(1000000)\<close>, \<open>d_type\<close> is \<^verbatim>\<open>Intn(len(eventTypes))\<close> and
  \<open>d_payload\<close> is the text \<open>generatePayload\<close> builds from its own draws.
\<close>

record draws =
  d_days :: int
  d_hours :: int
  d_minutes :: int
  d_seconds :: int
  d_now :: int
  d_id :: int
  d_user :: int
  d_type :: nat
  d_payload :: string

subsection \<open>Decimal text of an integer, as the verb \<open>%d\<close> prints it\<close>

fun digits_of :: "nat \<Rightarrow> string" where
  "digits_of n = (if n < 10 then [char_of (48 + n)]
                  else digits_of (n div 10) @ [char_of (48 + n mod 10)])"

declare digits_of.simps [simp del]

definition fmt_d :: "int \<Rightarrow> string" where
  "fmt_d i = (if i < 0 then CHR ''-'' # digits_of (nat (- i)) else digits_of (nat i))"

subsection \<open>generateEvent\<close>

definition hour_ns :: int where "hour_ns = 3600000000000"
definition minute_ns :: int where "minute_ns = 60000000000"
definition second_ns :: int where "second_ns = 1000000000"
definition millisecond_ns :: int where "millisecond_ns = 1000000"

text \<open>
  \<open>addDate t n\<close> stands for \<^verbatim>\<open>t.AddDate(0, 0, n)\<close> of the standard library (calendar
  arithmetic in the local time zone); it is a parameter.
\<close>

definition generateEvent :: "(int \<Rightarrow> int \<Rightarrow> int) \<Rightarrow> draws \<Rightarrow> Event" where
  "generateEvent addDate d =
     (let daysAgo = (if d_days d > 89 then 89 else d_days d);
          createdAt = addDate (d_now d) (- daysAgo)
                      - d_hours d * hour_ns - d_minutes d * minute_ns - d_seconds d * second_ns
      in \<lparr>ID = ''evt_'' @ fmt_d createdAt @ ''_'' @ fmt_d (d_id d),
          UserID = d_user d,
          EventType = eventTypes ! d_type d,
          Payload = d_payload d,
          CreatedAt = createdAt\<rparr>)"

subsection \<open>Generate\<close>

text \<open>
  The goroutine of \<open>Generate\<close> sends one batch per turn of its loop and closes the
  channel when \<open>current\<close> reaches \<open>totalEvents\<close>. The model returns the batches in the
  order they are sent, with the generator as the loop leaves it. The \<open>i\<close>-th event
  of a batch is generated from draw number \<open>current + i\<close>.

  Two turns of the loop do not come back: \<^verbatim>\<open>make([]Event, size)\<close> panics when
  \<open>size\<close> is negative, and with \<open>size = 0\<close> the turn sends an empty batch and leaves
  \<open>current\<close> as it was, so the loop sends empty batches for ever.
\<close>

definition make_batch :: "(int \<Rightarrow> int \<Rightarrow> int) \<Rightarrow> (nat \<Rightarrow> draws) \<Rightarrow> int \<Rightarrow> int \<Rightarrow> Event list" where
  "make_batch addDate ds cur sz =
     map (\<lambda>i. generateEvent addDate (ds (nat cur + i))) [0..<nat sz]"

function Generate_loop ::
  "(int \<Rightarrow> int \<Rightarrow> int) \<Rightarrow> (nat \<Rightarrow> draws) \<Rightarrow> Generator \<Rightarrow> (Event list list \<times> Generator) outcome" where
  "Generate_loop addDate ds g =
     (if current g < totalEvents g then
        (let remaining = totalEvents g - current g;
             sz = (if remaining < batchSize g then remaining else batchSize g)
         in if sz < 0 then Panics
            else if sz = 0 then Hangs
            else (case Generate_loop addDate ds (g\<lparr>current := current g + sz\<rparr>) of
                    Returns (bs, g') \<Rightarrow> Returns (make_batch addDate ds (current g) sz # bs, g')
                  | Panics \<Rightarrow> Panics
                  | Hangs \<Rightarrow> Hangs))
      else Returns ([], g))"
  by pat_completeness auto
termination
  by (relation "measure (\<lambda>(a, ds, g). nat (totalEvents g - current g))") auto

declare Generate_loop.simps [simp del]

definition Generate ::
  "(int \<Rightarrow> int \<Rightarrow> int) \<Rightarrow> (nat \<Rightarrow> draws) \<Rightarrow> Generator \<Rightarrow> (Event list list \<times> Generator) outcome" where
  "Generate addDate ds g = Generate_loop addDate ds g"

text \<open>The batches of a run that completes; no batch otherwise.\<close>

definition batches_of :: "(Event list list \<times> Generator) outcome \<Rightarrow> Event list list" where
  "batches_of r = (case r of Returns (bs, g) \<Rightarrow> bs | Panics \<Rightarrow> [] | Hangs \<Rightarrow> [])"



subsection \<open>The events of a run and what an ID is printed from\<close>



section \<open>float64\<close>

text \<open>
  Go's \<open>float64\<close> is the IEEE 754 binary64 format. A finite value is kept as a pair
  \<open>Finite m e\<close> of integers standing for \<open>m * 2 ^ e\<close>; every operation computes the
  exact result and rounds it once, to nearest with ties to even, to 53 significant bits
  with the least exponent \<open>-1074\<close> (so subnormal results are rounded on the fixed grid
  \<open>2 ^ -1074\<close>) and to an infinity from \<open>2 ^ 1024\<close> on. The sign of a zero is not
  kept: no operation used here tells the two zeros apart.
\<close>

datatype float64 = Finite int int | PosInf | NegInf | NaN

text \<open>\<open>N / D\<close> rounded to the nearest integer, ties to even, for \<open>0 \<le> N\<close> and \<open>0 < D\<close>.\<close>

definition rne_div :: "int \<Rightarrow> int \<Rightarrow> int" where
  "rne_div N D =
     (let q = N div D; r = N mod D
      in if D < 2 * r \<or> (2 * r = D \<and> odd q) then q + 1 else q)"

text \<open>\<open>pow2 k\<close> is \<open>2 ^ k\<close> for \<open>k \<ge> 0\<close> and \<open>1\<close> below.\<close>

definition pow2 :: "int \<Rightarrow> int" where
  "pow2 k = 2 ^ nat k"

text \<open>
  \<open>f64_round n d e\<close> is the float64 nearest to \<open>n / d * 2 ^ e\<close>, for \<open>0 < d\<close>.
  \<open>fl\<close> is the exponent of the leading bit of the exact value and \<open>k\<close> the exponent
  of the last place that binary64 keeps for it.
\<close>

definition f64_round :: "int \<Rightarrow> int \<Rightarrow> int \<Rightarrow> float64" where
  "f64_round n d e =
     (if n = 0 then Finite 0 0
      else
        let a = \<bar>n\<bar>;
            L = bitlen a - bitlen d;
            fl = (if d * pow2 L \<le> a * pow2 (- L) then L else L - 1) + e;
            k = max (fl - 52) (- 1074);
            q = rne_div (a * pow2 (e - k)) (d * pow2 (k - e))
        in if 1024 < bitlen q + k then (if 0 < n then PosInf else NegInf)
           else Finite (sgn n * q) k)"

definition f64_of_int :: "int \<Rightarrow> float64" where
  "f64_of_int i = f64_round i 1 0"

text \<open>A decimal constant of the source, such as \<open>0.95\<close>, given as a fraction.\<close>

definition f64_const :: "int \<Rightarrow> int \<Rightarrow> float64" where
  "f64_const n d = f64_round n d 0"

fun f64_neg :: "float64 \<Rightarrow> float64" where
  "f64_neg (Finite m e) = Finite (- m) e"
| "f64_neg PosInf = NegInf"
| "f64_neg NegInf = PosInf"
| "f64_neg NaN = NaN"

text \<open>The sign of a value that is not a NaN: \<open>-1\<close>, \<open>0\<close> or \<open>1\<close>.\<close>

fun f64_sgn :: "float64 \<Rightarrow> int" where
  "f64_sgn (Finite m e) = sgn m"
| "f64_sgn PosInf = 1"
| "f64_sgn NegInf = - 1"
| "f64_sgn NaN = 0"

definition f64_inf :: "int \<Rightarrow> float64" where
  "f64_inf s = (if s < 0 then NegInf else PosInf)"

fun f64_mul :: "float64 \<Rightarrow> float64 \<Rightarrow> float64" where
  "f64_mul (Finite m1 e1) (Finite m2 e2) = f64_round (m1 * m2) 1 (e1 + e2)"
| "f64_mul NaN y = NaN"
| "f64_mul x NaN = NaN"
| "f64_mul x y = (if f64_sgn x * f64_sgn y = 0 then NaN else f64_inf (f64_sgn x * f64_sgn y))"

fun f64_div :: "float64 \<Rightarrow> float64 \<Rightarrow> float64" where
  "f64_div (Finite m1 e1) (Finite m2 e2) =
     (if m2 = 0 then (if m1 = 0 then NaN else f64_inf (sgn m1))
      else f64_round (m1 * sgn m2) \<bar>m2\<bar> (e1 - e2))"
| "f64_div NaN y = NaN"
| "f64_div x NaN = NaN"
| "f64_div (Finite m e) y = Finite 0 0"
| "f64_div x (Finite m e) = f64_inf (f64_sgn x * (if m < 0 then - 1 else 1))"
| "f64_div x y = NaN"

fun f64_add :: "float64 \<Rightarrow> float64 \<Rightarrow> float64" where
  "f64_add (Finite m1 e1) (Finite m2 e2) =
     (let e = min e1 e2 in f64_round (m1 * pow2 (e1 - e) + m2 * pow2 (e2 - e)) 1 e)"
| "f64_add NaN y = NaN"
| "f64_add x NaN = NaN"
| "f64_add PosInf NegInf = NaN"
| "f64_add NegInf PosInf = NaN"
| "f64_add (Finite m e) y = y"
| "f64_add x y = x"

text \<open>\<open>x < y\<close> on float64; every comparison with a NaN is false.\<close>

fun f64_less :: "float64 \<Rightarrow> float64 \<Rightarrow> bool" where
  "f64_less (Finite m1 e1) (Finite m2 e2) =
     (let e = min e1 e2 in m1 * pow2 (e1 - e) < m2 * pow2 (e2 - e))"
| "f64_less NaN y = False"
| "f64_less x NaN = False"
| "f64_less x PosInf = (x \<noteq> PosInf)"
| "f64_less NegInf y = (y \<noteq> NegInf)"
| "f64_less x y = False"

fun f64_le :: "float64 \<Rightarrow> float64 \<Rightarrow> bool" where
  "f64_le (Finite m1 e1) (Finite m2 e2) =
     (let e = min e1 e2 in m1 * pow2 (e1 - e) \<le> m2 * pow2 (e2 - e))"
| "f64_le NaN y = False"
| "f64_le x NaN = False"
| "f64_le x PosInf = True"
| "f64_le NegInf y = True"
| "f64_le x y = False"

text \<open>
  The conversion \<^verbatim>\<open>int(f)\<close> drops the fraction (towards zero). When the value does not
  fit an \<open>int\<close> (64 bits), or is an infinity or a NaN, the language leaves the result
  to the implementation: \<open>plat\<close> is what the platform returns then.
\<close>

definition trunc_quot :: "int \<Rightarrow> int \<Rightarrow> int" where
  "trunc_quot a b = sgn a * sgn b * (\<bar>a\<bar> div \<bar>b\<bar>)"

definition trunc_rem :: "int \<Rightarrow> int \<Rightarrow> int" where
  "trunc_rem a b = a - b * trunc_quot a b"

definition in_int64 :: "int \<Rightarrow> bool" where
  "in_int64 i = (- (2 ^ 63) \<le> i \<and> i < 2 ^ 63)"

fun f64_to_int :: "(float64 \<Rightarrow> int) \<Rightarrow> float64 \<Rightarrow> int" where
  "f64_to_int plat (Finite m e) =
     (let i = trunc_quot (m * pow2 e) (pow2 (- e))
      in if in_int64 i then i else plat (Finite m e))"
| "f64_to_int plat x = plat x"

text \<open>The real number a finite float64 stands for (used in statements only).\<close>

fun valof :: "float64 \<Rightarrow> real" where
  "valof (Finite m e) = real_of_int m * 2 powi e"
| "valof x = 0"

definition is_finite :: "float64 \<Rightarrow> bool" where
  "is_finite x = (case x of Finite m e \<Rightarrow> True | _ \<Rightarrow> False)"

text \<open>
  On amd64 the conversion instruction yields the least \<open>int64\<close> for every value that
  does not fit.
\<close>

definition plat_amd64 :: "float64 \<Rightarrow> int" where
  "plat_amd64 x = - (2 ^ 63)"

text \<open>A finite value that is not negative.\<close>

definition fin_nonneg :: "float64 \<Rightarrow> bool" where
  "fin_nonneg x = (case x of Finite m e \<Rightarrow> 0 \<le> m | PosInf \<Rightarrow> False | NegInf \<Rightarrow> False | NaN \<Rightarrow> False)"

section \<open>The stats functions (package benchmark)\<close>

text \<open>
  A \<open>time.Duration\<close> is an \<open>int64\<close> count of nanoseconds. \<open>wrap64\<close> is the value an
  \<open>int64\<close> addition keeps.
\<close>

definition wrap64 :: "int \<Rightarrow> int" where
  "wrap64 x = (x + 2 ^ 63) mod 2 ^ 64 - 2 ^ 63"

text \<open>
  \<open>AvgDuration\<close>, \<open>MinDuration\<close> and \<open>MaxDuration\<close> only read their argument: they are
  functions of the elements of the slice.
\<close>

definition AvgDuration :: "int list \<Rightarrow> int" where
  "AvgDuration durations =
     (if length durations = 0 then 0
      else trunc_quot (foldl (\<lambda>sum d. wrap64 (sum + d)) 0 durations) (int (length durations)))"

definition MinDuration :: "int list \<Rightarrow> int" where
  "MinDuration durations =
     (if length durations = 0 then 0
      else foldl (\<lambda>result d. if d < result then d else result) (durations ! 0) (drop 1 durations))"

definition MaxDuration :: "int list \<Rightarrow> int" where
  "MaxDuration durations =
     (if length durations = 0 then 0
      else foldl (\<lambda>result d. if d > result then d else result) (durations ! 0) (drop 1 durations))"

subsection \<open>Slices in a store\<close>

text \<open>
  \<open>Percentile\<close> allocates, copies and sorts in place, so it is modelled on a store of
  arrays: the store is the list of the arrays allocated so far and a slice is the
  position of its array (every slice here spans its whole array).
\<close>

type_synonym store = "int list list"
type_synonym slice = nat

definition len_slice :: "store \<Rightarrow> slice \<Rightarrow> nat" where
  "len_slice h a = length (h ! a)"

text \<open>\<^verbatim>\<open>make([]time.Duration, n)\<close>: a fresh array of \<open>n\<close> zeros.\<close>

definition make_slice :: "store \<Rightarrow> nat \<Rightarrow> store \<times> slice" where
  "make_slice h n = (h @ [replicate n 0], length h)"

text \<open>\<^verbatim>\<open>copy(dst, src)\<close> writes the first \<open>min(len(dst), len(src))\<close> elements of \<open>src\<close>.\<close>

definition copy_slice :: "store \<Rightarrow> slice \<Rightarrow> slice \<Rightarrow> store" where
  "copy_slice h dst src =
     (let k = min (length (h ! dst)) (length (h ! src))
      in h[dst := take k (h ! src) @ drop k (h ! dst)])"

text \<open>
  \<^verbatim>\<open>sort.Slice(s, func(i, j int) bool { return s[i] < s[j] })\<close> reorders the array of
  \<open>s\<close> in place into ascending order.
\<close>

definition sort_Slice :: "store \<Rightarrow> slice \<Rightarrow> store" where
  "sort_Slice h a = h[a := sort (h ! a)]"

subsection \<open>Percentile\<close>

text \<open>
  The result is the store after the call and what the call does: it returns a
  duration, or panics when the index is negative (an index out of range).
\<close>

definition Percentile ::
  "(float64 \<Rightarrow> int) \<Rightarrow> store \<Rightarrow> slice \<Rightarrow> float64 \<Rightarrow> store \<times> int outcome" where
  "Percentile plat h durations p =
     (if len_slice h durations = 0 then (h, Returns 0)
      else
        let (h1, sorted) = make_slice h (len_slice h durations);
            h2 = copy_slice h1 sorted durations;
            h3 = sort_Slice h2 sorted;
            index = f64_to_int plat (f64_mul (f64_of_int (int (len_slice h3 sorted))) p);
            index = (if index \<ge> int (len_slice h3 sorted)
                     then int (len_slice h3 sorted) - 1 else index)
        in if index < 0 then (h3, Panics)
           else (h3, Returns (h3 ! sorted ! nat index)))"

text \<open>Milliseconds, as the tests write their durations.\<close>

definition ms :: "int \<Rightarrow> int" where
  "ms n = n * millisecond_ns"

section \<open>The runner (package benchmark)\<close>

record Runner =
  EventCount :: int
  BatchSize :: int
  Workers :: int
  QueryIterations :: int
  WarmupIterations :: int
  PreloadCount :: int

text \<open>
  The fields of \<open>InsertResult\<close> and \<open>QueryResult\<close> carry a prefix, since two structs
  of the source share field names with each other and with the stats functions.
\<close>

record InsertResult =
  ir_TotalEvents :: int
  ir_Duration :: int
  ir_Throughput :: float64
  ir_ErrorCount :: int
  ir_BatchSize :: int
  ir_WorkerCount :: int

record QueryResult =
  qr_QueryName :: string
  qr_Iterations :: int
  qr_AvgDuration :: int
  qr_MinDuration :: int
  qr_MaxDuration :: int
  qr_P50Duration :: int
  qr_P95Duration :: int
  qr_P99Duration :: int
  qr_ErrorCount :: int
  qr_DateRange :: string

text \<open>
  The \<open>Repository\<close> interface, for the two methods the runner calls. A target is a
  state machine over its own state \<open>'s\<close>. \<open>InsertBatch\<close> returns the error (\<open>None\<close> is
  \<open>nil\<close>) and the next state. \<open>GetEventStats\<close> returns the error, the time the call
  took in nanoseconds (what \<open>time.Since\<close> reads after it) and the next state; the
  rows it returns are dropped by every caller.
\<close>

record 's Repository =
  InsertBatch :: "'s \<Rightarrow> Event list \<Rightarrow> string option \<times> 's"
  GetEventStats :: "'s \<Rightarrow> int \<Rightarrow> int \<Rightarrow> string option \<times> int \<times> 's"

subsection \<open>The insert path\<close>

text \<open>
  \<open>consumeBatches\<close>: the loop of one worker over the batches it receives. The two
  counters are shared by the workers and changed only by atomic additions; an
  \<open>int64\<close> addition cannot wrap here, since the counters stay below the number of
  events requested. The log lines are not part of the model.
\<close>

fun consumeBatches ::
  "'s Repository \<Rightarrow> Event list list \<Rightarrow> int \<times> int \<times> 's \<Rightarrow> int \<times> int \<times> 's" where
  "consumeBatches repo [] st = st"
| "consumeBatches repo (batch # batches) (totalInserted, totalErrors, s) =
     (case InsertBatch repo s batch of
        (Some err, s') \<Rightarrow> consumeBatches repo batches (totalInserted, totalErrors + 1, s')
      | (None, s') \<Rightarrow>
          consumeBatches repo batches (totalInserted + int (length batch), totalErrors, s'))"

text \<open>
  \<open>parallelInsert\<close>. Every batch of the generator is received by exactly one worker,
  which calls \<open>InsertBatch\<close> once for it. The calls of the workers reach the target one
  after the other in some order: \<open>sched\<close> maps the batches in the order they are
  generated to the order of their calls (the identity with one worker). Since the
  counters are only added to, the loops of the workers together do what one loop does
  over the batches in that order.

  \<^verbatim>\<open>make(chan []generator.Event, r.Workers*2)\<close> panics for a negative size, and for
  a size whose buffer the runtime does not allocate (\<open>makechan: size out of range\<close>):
  \<open>chan_limit\<close> is the largest size for which \<open>make\<close> succeeds in the run, a parameter,
  since the limit belongs to the runtime and the machine and not to this program (on
  linux/amd64 the runtime refuses every buffer above \<open>2 ^ 48 - 96\<close> bytes, at 24 bytes
  for each slice of the buffer). The product \<open>r.Workers*2\<close> is an \<open>int\<close> and wraps. With no
  worker \<open>wg.Wait()\<close> returns at once and both counters are zero. With a worker, the
  call returns when the channel is closed, which a generator that never finishes does
  not do; a panic in the generator's goroutine ends the process.
\<close>

definition parallelInsert ::
  "int \<Rightarrow> (int \<Rightarrow> int \<Rightarrow> int) \<Rightarrow> (nat \<Rightarrow> draws) \<Rightarrow> (Event list list \<Rightarrow> Event list list)
   \<Rightarrow> Runner \<Rightarrow> 's Repository \<Rightarrow> 's \<Rightarrow> int \<Rightarrow> (int \<times> int \<times> 's) outcome" where
  "parallelInsert chan_limit addDate ds sched r repo s cnt =
     (if wrap64 (Workers r * 2) < 0 \<or> chan_limit < wrap64 (Workers r * 2) then Panics
      else case Generate addDate ds (New cnt (BatchSize r)) of
             Panics \<Rightarrow> Panics
           | Hangs \<Rightarrow> (if Workers r \<le> 0 then Returns (0, 0, s) else Hangs)
           | Returns (batches, g) \<Rightarrow>
               (if Workers r \<le> 0 then Returns (0, 0, s)
                else Returns (consumeBatches repo (sched batches) (0, 0, s))))"

text \<open>\<open>Preload\<close> returns an error or \<open>nil\<close> (\<open>None\<close>), and leaves the target in a new state.\<close>

definition Preload ::
  "int \<Rightarrow> (int \<Rightarrow> int \<Rightarrow> int) \<Rightarrow> (nat \<Rightarrow> draws) \<Rightarrow> (Event list list \<Rightarrow> Event list list)
   \<Rightarrow> Runner \<Rightarrow> 's Repository \<Rightarrow> 's \<Rightarrow> (string option \<times> 's) outcome" where
  "Preload chan_limit addDate ds sched r repo s =
     (if PreloadCount r \<le> 0 then Returns (None, s)
      else case parallelInsert chan_limit addDate ds sched r repo s (PreloadCount r) of
             Panics \<Rightarrow> Panics
           | Hangs \<Rightarrow> Hangs
           | Returns (inserted, errors, s') \<Rightarrow>
               (if errors > 0 \<and> inserted = 0
                then Returns (Some (''preload failed: all '' @ fmt_d errors @ '' batches errored''), s')
                else Returns (None, s')))"

text \<open>
  \<^verbatim>\<open>func (d Duration) Seconds() float64\<close> of the standard library:
  \<^verbatim>\<open>sec := d / Second; nsec := d % Second; return float64(sec) + float64(nsec)/1e9\<close>.
\<close>

definition Seconds :: "int \<Rightarrow> float64" where
  "Seconds d =
     f64_add (f64_of_int (trunc_quot d second_ns))
             (f64_div (f64_of_int (trunc_rem d second_ns)) (f64_const 1000000000 1))"

text \<open>
  \<open>RunInsert\<close>. \<open>duration\<close> is what \<^verbatim>\<open>time.Since(start)\<close> reads when the workers have
  finished.
\<close>

definition RunInsert ::
  "int \<Rightarrow> (int \<Rightarrow> int \<Rightarrow> int) \<Rightarrow> (nat \<Rightarrow> draws) \<Rightarrow> (Event list list \<Rightarrow> Event list list)
   \<Rightarrow> int \<Rightarrow> Runner \<Rightarrow> 's Repository \<Rightarrow> 's \<Rightarrow> (InsertResult \<times> 's) outcome" where
  "RunInsert chan_limit addDate ds sched duration r repo s =
     (case parallelInsert chan_limit addDate ds sched r repo s (EventCount r) of
        Panics \<Rightarrow> Panics
      | Hangs \<Rightarrow> Hangs
      | Returns (inserted, errors, s') \<Rightarrow>
          Returns (\<lparr>ir_TotalEvents = EventCount r,
                    ir_Duration = duration,
                    ir_Throughput = f64_div (f64_of_int inserted) (Seconds duration),
                    ir_ErrorCount = errors,
                    ir_BatchSize = BatchSize r,
                    ir_WorkerCount = Workers r\<rparr>, s'))"

subsection \<open>The query path\<close>

text \<open>
  The calls of \<open>GetEventStats\<close> are recorded as they are made, with the place of the
  call in the source: the warmup loop of \<open>runQuery\<close> or the loop of \<open>measureQuery\<close>.
  The record is carried beside the state of the target.
\<close>

datatype call_site = WarmupCall | MeasuredCall

type_synonym call = "call_site \<times> int \<times> int"

fun warmup :: "'s Repository \<Rightarrow> int \<Rightarrow> int \<Rightarrow> nat \<Rightarrow> 's \<times> call list \<Rightarrow> 's \<times> call list" where
  "warmup repo start end 0 st = st"
| "warmup repo start end (Suc n) (s, calls) =
     (case GetEventStats repo s start end of
        (err, d, s') \<Rightarrow> warmup repo start end n (s', calls @ [(WarmupCall, start, end)]))"

fun measure_loop ::
  "'s Repository \<Rightarrow> int \<Rightarrow> int \<Rightarrow> nat \<Rightarrow> int list \<times> int \<times> 's \<times> call list
   \<Rightarrow> int list \<times> int \<times> 's \<times> call list" where
  "measure_loop repo start end 0 st = st"
| "measure_loop repo start end (Suc n) (durations, errors, s, calls) =
     (case GetEventStats repo s start end of
        (Some err, d, s') \<Rightarrow>
          measure_loop repo start end n
            (durations, errors + 1, s', calls @ [(MeasuredCall, start, end)])
      | (None, d, s') \<Rightarrow>
          measure_loop repo start end n
            (durations @ [d], errors, s', calls @ [(MeasuredCall, start, end)]))"

text \<open>
  The loops \<^verbatim>\<open>for i := 0; i < n; i++\<close> run \<open>n\<close> times, and not at all for \<open>n \<le> 0\<close>:
  \<open>nat n\<close> turns.
\<close>

definition measureQuery ::
  "Runner \<Rightarrow> 's Repository \<Rightarrow> int \<Rightarrow> int \<Rightarrow> 's \<times> call list \<Rightarrow> int list \<times> int \<times> 's \<times> call list" where
  "measureQuery r repo start end st =
     measure_loop repo start end (nat (QueryIterations r)) ([], 0, fst st, snd st)"

text \<open>
  \<open>runQuery\<close>. \<open>fmt_date\<close> stands for \<^verbatim>\<open>t.Format("2006-01-02")\<close> of the standard
  library. The slice \<open>durations\<close> is the one array of a store of its own, which the
  three calls of \<open>Percentile\<close> pass on to one another.
\<close>

definition runQuery ::
  "(float64 \<Rightarrow> int) \<Rightarrow> (int \<Rightarrow> string) \<Rightarrow> Runner \<Rightarrow> 's Repository \<Rightarrow> string \<Rightarrow> int \<Rightarrow> int
   \<Rightarrow> 's \<times> call list \<Rightarrow> (QueryResult \<times> 's \<times> call list) outcome" where
  "runQuery plat fmt_date r repo name start end st =
     (let st1 = warmup repo start end (nat (WarmupIterations r)) st;
          (durations, errors, s2, calls2) = measureQuery r repo start end st1
      in if length durations = 0
         then Returns (\<lparr>qr_QueryName = name, qr_Iterations = 0, qr_AvgDuration = 0,
                         qr_MinDuration = 0, qr_MaxDuration = 0, qr_P50Duration = 0,
                         qr_P95Duration = 0, qr_P99Duration = 0, qr_ErrorCount = errors,
                         qr_DateRange = []\<rparr>, s2, calls2)
         else
           (case Percentile plat [durations] 0 (f64_const 50 100) of
              (h1, Returns p50) \<Rightarrow>
                (case Percentile plat h1 0 (f64_const 95 100) of
                   (h2, Returns p95) \<Rightarrow>
                     (case Percentile plat h2 0 (f64_const 99 100) of
                        (h3, Returns p99) \<Rightarrow>
                          Returns (\<lparr>qr_QueryName = name,
                                    qr_Iterations = int (length durations),
                                    qr_AvgDuration = AvgDuration durations,
                                    qr_MinDuration = MinDuration durations,
                                    qr_MaxDuration = MaxDuration durations,
                                    qr_P50Duration = p50,
                                    qr_P95Duration = p95,
                                    qr_P99Duration = p99,
                                    qr_ErrorCount = errors,
                                    qr_DateRange = fmt_date start @ '' to '' @ fmt_date end\<rparr>,
                                   s2, calls2)
                      | (h3, Panics) \<Rightarrow> Panics
                      | (h3, Hangs) \<Rightarrow> Hangs)
                 | (h2, Panics) \<Rightarrow> Panics
                 | (h2, Hangs) \<Rightarrow> Hangs)
            | (h1, Panics) \<Rightarrow> Panics
            | (h1, Hangs) \<Rightarrow> Hangs))"

text \<open>
  \<open>RunQueries\<close>: the four scenarios in the order of the source, each stored under its
  name in the map that is returned. \<open>now\<close> is \<^verbatim>\<open>time.Now()\<close> in nanoseconds.
\<close>

definition scenarios :: "int \<Rightarrow> (string \<times> int) list" where
  "scenarios now =
     [(''1_hour'', now - 1 * hour_ns),
      (''1_day'', now - 24 * hour_ns),
      (''1_week'', now - 7 * 24 * hour_ns),
      (''1_month'', now - 30 * 24 * hour_ns)]"

fun RunQueries_loop ::
  "(float64 \<Rightarrow> int) \<Rightarrow> (int \<Rightarrow> string) \<Rightarrow> Runner \<Rightarrow> 's Repository \<Rightarrow> int
   \<Rightarrow> (string \<times> int) list \<Rightarrow> (string \<rightharpoonup> QueryResult) \<times> 's \<times> call list
   \<Rightarrow> ((string \<rightharpoonup> QueryResult) \<times> 's \<times> call list) outcome" where
  "RunQueries_loop plat fmt_date r repo now [] st = Returns st"
| "RunQueries_loop plat fmt_date r repo now ((name, start) # rest) (results, s, calls) =
     (case runQuery plat fmt_date r repo name start now (s, calls) of
        Returns (qr, s', calls') \<Rightarrow>
          RunQueries_loop plat fmt_date r repo now rest (results(name \<mapsto> qr), s', calls')
      | Panics \<Rightarrow> Panics
      | Hangs \<Rightarrow> Hangs)"

definition RunQueries ::
  "(float64 \<Rightarrow> int) \<Rightarrow> (int \<Rightarrow> string) \<Rightarrow> int \<Rightarrow> Runner \<Rightarrow> 's Repository \<Rightarrow> 's
   \<Rightarrow> ((string \<rightharpoonup> QueryResult) \<times> 's \<times> call list) outcome" where
  "RunQueries plat fmt_date now r repo s =
     RunQueries_loop plat fmt_date r repo now (scenarios now) (Map.empty, s, [])"

section \<open>What a run did: the calls it made\<close>

text \<open>
  The claims speak of the batches whose \<open>InsertBatch\<close> call failed and of the events
  that were inserted. \<open>insert_outcomes\<close> lists the calls of a consumer loop in their
  order, each batch with whether its call returned an error; it follows the state of
  the target as \<open>consumeBatches\<close> does and counts nothing itself.
\<close>

fun insert_outcomes :: "'s Repository \<Rightarrow> Event list list \<Rightarrow> 's \<Rightarrow> (Event list \<times> bool) list" where
  "insert_outcomes repo [] s = []"
| "insert_outcomes repo (b # bs) s =
     (case InsertBatch repo s b of (err, s') \<Rightarrow> (b, err \<noteq> None) # insert_outcomes repo bs s')"

definition events_inserted :: "(Event list \<times> bool) list \<Rightarrow> int" where
  "events_inserted cs = (\<Sum>c\<leftarrow>cs. if snd c then 0 else int (length (fst c)))"

definition batches_failed :: "(Event list \<times> bool) list \<Rightarrow> int" where
  "batches_failed cs = int (length (filter snd cs))"

text \<open>The \<open>InsertBatch\<close> calls of a run of \<open>parallelInsert\<close> that returns.\<close>

definition insert_calls ::
  "(int \<Rightarrow> int \<Rightarrow> int) \<Rightarrow> (nat \<Rightarrow> draws) \<Rightarrow> (Event list list \<Rightarrow> Event list list)
   \<Rightarrow> Runner \<Rightarrow> 's Repository \<Rightarrow> 's \<Rightarrow> int \<Rightarrow> (Event list \<times> bool) list" where
  "insert_calls addDate ds sched r repo s cnt =
     (if Workers r \<le> 0 then []
      else insert_outcomes repo
             (sched (batches_of (Generate addDate ds (New cnt (BatchSize r))))) s)"

definition preload_calls ::
  "(int \<Rightarrow> int \<Rightarrow> int) \<Rightarrow> (nat \<Rightarrow> draws) \<Rightarrow> (Event list list \<Rightarrow> Event list list)
   \<Rightarrow> Runner \<Rightarrow> 's Repository \<Rightarrow> 's \<Rightarrow> (Event list \<times> bool) list" where
  "preload_calls addDate ds sched r repo s =
     (if PreloadCount r \<le> 0 then []
      else insert_calls addDate ds sched r repo s (PreloadCount r))"

subsection \<open>Targets and inputs of the tests\<close>

text \<open>
  The mock target of the runner's tests: it counts its calls; \<open>fails n\<close> tells whether
  the \<open>n\<close>-th call of \<open>InsertBatch\<close> returns an error (every second one in
  \<open>TestRunInsertWithErrors\<close>), and \<open>GetEventStats\<close> always succeeds. The time a query
  takes is set to one microsecond.
\<close>

definition mockRepository :: "(nat \<Rightarrow> bool) \<Rightarrow> nat Repository" where
  "mockRepository fails =
     \<lparr>InsertBatch = (\<lambda>n events. (if fails (n + 1) then Some ''simulated error'' else None, n + 1)),
      GetEventStats = (\<lambda>n start end. (None, 1000, n + 1))\<rparr>"

definition every_2nd :: "nat \<Rightarrow> bool" where
  "every_2nd n = (n mod 2 = 0)"

text \<open>A day of 24 hours for \<open>AddDate\<close>, and one fixed draw for every event.\<close>

definition addDate24 :: "int \<Rightarrow> int \<Rightarrow> int" where
  "addDate24 t n = t + n * 24 * hour_ns"

definition draw0 :: draws where
  "draw0 = \<lparr>d_days = 3, d_hours = 1, d_minutes = 2, d_seconds = 3,
            d_now = 1700000000000000000, d_id = 42, d_user = 7, d_type = 0,
            d_payload = ''{}''\<rparr>"

text \<open>The limit of the runtime on linux/amd64 for a channel of slices: \<open>(2 ^ 48 - 96) div 24\<close>.\<close>

definition chan_limit_amd64 :: int where
  "chan_limit_amd64 = 11728124029606"

definition test_runner :: Runner where
  "test_runner = \<lparr>EventCount = 100, BatchSize = 10, Workers = 1, QueryIterations = 5,
                  WarmupIterations = 1, PreloadCount = 30\<rparr>"

subsection \<open>The calls of the query path\<close>

text \<open>
  \<open>query_outcomes\<close> lists what \<open>n\<close> calls of \<open>GetEventStats\<close> in a row return, from
  the state \<open>s\<close> of the target on: whether the call failed, and the time it took.
  \<open>measured_outcomes\<close> are those of the measured calls of one \<open>runQuery\<close>, which start
  in the state the warmup calls leave.
\<close>

fun query_outcomes :: "'s Repository \<Rightarrow> int \<Rightarrow> int \<Rightarrow> nat \<Rightarrow> 's \<Rightarrow> (bool \<times> int) list" where
  "query_outcomes repo start end 0 s = []"
| "query_outcomes repo start end (Suc n) s =
     (case GetEventStats repo s start end of
        (err, d, s') \<Rightarrow> (err \<noteq> None, d) # query_outcomes repo start end n s')"

definition measured_outcomes ::
  "Runner \<Rightarrow> 's Repository \<Rightarrow> int \<Rightarrow> int \<Rightarrow> 's \<Rightarrow> (bool \<times> int) list" where
  "measured_outcomes r repo start end s =
     query_outcomes repo start end (nat (QueryIterations r))
       (fst (warmup repo start end (nat (WarmupIterations r)) (s, [])))"

definition succeeded :: "(bool \<times> int) list \<Rightarrow> int list" where
  "succeeded outs = map snd (filter (\<lambda>c. \<not> fst c) outs)"

definition failed :: "(bool \<times> int) list \<Rightarrow> (bool \<times> int) list" where
  "failed outs = filter fst outs"

text \<open>
  The calls of one scenario as the claims describe them: the warmup calls, then the
  measured calls.
\<close>

definition scenario_calls :: "Runner \<Rightarrow> int \<Rightarrow> int \<Rightarrow> call list" where
  "scenario_calls r start end =
     replicate (nat (WarmupIterations r)) (WarmupCall, start, end)
     @ replicate (nat (QueryIterations r)) (MeasuredCall, start, end)"

text \<open>A target whose queries fail on every call, and a date format for the examples.\<close>

definition failingRepository :: "nat Repository" where
  "failingRepository =
     \<lparr>InsertBatch = (\<lambda>n events. (Some ''down'', n + 1)),
      GetEventStats = (\<lambda>n start end. (Some ''down'', 1000, n + 1))\<rparr>"

definition fmt_date0 :: "int \<Rightarrow> string" where
  "fmt_date0 t = ''2024-01-01''"

text \<open>
  What the calls of a record do to the target: \<open>GetEventStats\<close> is applied for each
  call of the record in turn, with the range of the call, and each call starts in the
  state the call before it left.
\<close>

fun apply_calls :: "'s Repository \<Rightarrow> call list \<Rightarrow> 's \<Rightarrow> 's" where
  "apply_calls repo [] s = s"
| "apply_calls repo ((site, start, end) # cs) s =
     apply_calls repo cs (snd (snd (GetEventStats repo s start end)))"



section \<open>Waiting for a service (package orchestrator)\<close>

text \<open>
  \<^verbatim>\<open>type DBService struct { Name string; Service string; ReadyCheck []string }\<close>.
\<close>

record DBService =
  Name :: string
  Service :: string
  ReadyCheck :: "string list"

text \<open>
  \<open>WaitReady\<close> returns \<open>nil\<close>, the error of the context, or the error of the timeout
  with its message.
\<close>

datatype wr_error = ContextErr | TimeoutErr string

text \<open>
  Time is counted in nanoseconds from the call of \<open>WaitReady\<close>, as \<^verbatim>\<open>time.Duration\<close>
  does. The three constants of the source: \<^verbatim>\<open>time.After(5 * time.Second)\<close>,
  \<^verbatim>\<open>time.After(60 * time.Second)\<close> and \<^verbatim>\<open>time.NewTicker(2 * time.Second)\<close>.
\<close>

definition grace :: int where "grace = 5 * second_ns"
definition readiness_deadline :: int where "readiness_deadline = 60 * second_ns"
definition poll_interval :: int where "poll_interval = 2 * second_ns"

text \<open>
  What is outside the function: the time at which the context is cancelled, if it ever
  is; for the \<open>k\<close>-th run of the readiness check the time it takes and whether it
  succeeds (\<open>runReadyCheck\<close> returns \<open>nil\<close>); and, for the \<open>k\<close>-th \<open>select\<close>, which of the
  cases that are ready it takes (Go takes one of them at random). Only waiting and the
  readiness check take time; a \<open>select\<close> that has to wait goes on at the moment its
  first case becomes ready.
\<close>

record wr_env =
  cancel_at :: "int option"
  probe :: "nat \<Rightarrow> int \<times> bool"
  pick :: "nat \<Rightarrow> nat"

datatype wr_case = CtxDone | DeadlineFired | Tick

text \<open>
  The state of the loop: the time, whether a tick waits in the channel of the ticker
  (it holds one tick; a tick that finds it full is dropped), the time of the next tick,
  the times at which the readiness checks so far were started, and the number of
  \<open>select\<close> statements so far.
\<close>

record wr_state =
  wr_now :: int
  pending :: bool
  next_tick :: int
  probes :: "int list"
  selects :: nat

definition cancelled :: "wr_env \<Rightarrow> int \<Rightarrow> bool" where
  "cancelled env t = (case cancel_at env of None \<Rightarrow> False | Some c \<Rightarrow> c \<le> t)"

text \<open>The ticks up to the present time are delivered: one is kept, the next is due later.\<close>

definition tick_sync :: "wr_state \<Rightarrow> wr_state" where
  "tick_sync st =
     (if next_tick st \<le> wr_now st
      then st\<lparr>pending := True,
              next_tick := next_tick st
                           + poll_interval * ((wr_now st - next_tick st) div poll_interval + 1)\<rparr>
      else st)"

text \<open>The cases of the \<open>select\<close> of the loop that are ready, in the order of the source.\<close>

definition ready :: "wr_env \<Rightarrow> int \<Rightarrow> wr_state \<Rightarrow> wr_case list" where
  "ready env deadline st =
     (if cancelled env (wr_now st) then [CtxDone] else [])
     @ (if deadline \<le> wr_now st then [DeadlineFired] else [])
     @ (if pending st then [Tick] else [])"

definition next_event :: "wr_env \<Rightarrow> int \<Rightarrow> wr_state \<Rightarrow> int" where
  "next_event env deadline st =
     (let m = min deadline (next_tick st)
      in case cancel_at env of None \<Rightarrow> m | Some c \<Rightarrow> min c m)"

text \<open>
  One \<open>select\<close> of the loop: when no case is ready it waits for the first of them,
  then one of the ready cases is taken.
\<close>

definition select_case :: "wr_env \<Rightarrow> int \<Rightarrow> wr_state \<Rightarrow> wr_case \<times> wr_state" where
  "select_case env deadline st =
     (let st1 = (if ready env deadline st = []
                 then tick_sync (st\<lparr>wr_now := next_event env deadline st\<rparr>) else st);
          r = ready env deadline st1
      in (r ! (pick env (selects st1) mod length r), st1\<lparr>selects := selects st1 + 1\<rparr>))"

text \<open>
  The loop of \<open>WaitReady\<close>. A turn that takes the tick runs the readiness check:
  \<^verbatim>\<open>args[0]\<close> panics for a service without a command. The loop has no bound of its
  own: the model runs at most \<open>fuel\<close> turns and \<open>None\<close> says that they did not suffice.
\<close>

fun WaitReady_loop ::
  "nat \<Rightarrow> wr_env \<Rightarrow> DBService \<Rightarrow> int \<Rightarrow> wr_state \<Rightarrow> (wr_error option outcome \<times> wr_state) option" where
  "WaitReady_loop 0 env svc deadline st = None"
| "WaitReady_loop (Suc fuel) env svc deadline st =
     (case select_case env deadline st of
        (CtxDone, st1) \<Rightarrow> Some (Returns (Some ContextErr), st1)
      | (DeadlineFired, st1) \<Rightarrow>
          Some (Returns (Some (TimeoutErr (Name svc @ '': readiness timeout after 60s''))), st1)
      | (Tick, st1) \<Rightarrow>
          (if ReadyCheck svc = [] then Some (Panics, st1)
           else (case probe env (length (probes st1)) of
                   (d, ok) \<Rightarrow>
                     (let st2 = tick_sync (st1\<lparr>pending := False,
                                              probes := probes st1 @ [wr_now st1],
                                              wr_now := wr_now st1 + max 0 d\<rparr>)
                      in if ok then Some (Returns None, st2)
                         else WaitReady_loop fuel env svc deadline st2))))"

text \<open>
  \<open>WaitReady\<close>. The first \<open>select\<close> waits for the five seconds or for the context; then
  the timer of the deadline and the ticker are started, both at that moment.
\<close>

definition wr_start :: "int \<Rightarrow> wr_state" where
  "wr_start t = \<lparr>wr_now = t, pending = False, next_tick = t + poll_interval, probes = [], selects = 1\<rparr>"

definition WaitReady ::
  "nat \<Rightarrow> wr_env \<Rightarrow> DBService \<Rightarrow> (wr_error option outcome \<times> wr_state) option" where
  "WaitReady fuel env svc =
     (case cancel_at env of
        None \<Rightarrow> WaitReady_loop fuel env svc (grace + readiness_deadline) (wr_start grace)
      | Some c \<Rightarrow>
          (if c < grace \<or> (c = grace \<and> pick env 0 mod 2 = 1)
           then Some (Returns (Some ContextErr), (wr_start (max 0 c))\<lparr>selects := 1\<rparr>)
           else WaitReady_loop fuel env svc (grace + readiness_deadline) (wr_start grace)))"

text \<open>What a run returned, when it returned, and the readiness checks it started.\<close>

definition wr_result :: "(wr_error option outcome \<times> wr_state) option \<Rightarrow> wr_error option outcome option" where
  "wr_result r = map_option fst r"

definition wr_time :: "(wr_error option outcome \<times> wr_state) option \<Rightarrow> int" where
  "wr_time r = (case r of None \<Rightarrow> 0 | Some (x, st) \<Rightarrow> wr_now st)"

definition wr_probes :: "(wr_error option outcome \<times> wr_state) option \<Rightarrow> int list" where
  "wr_probes r = (case r of None \<Rightarrow> [] | Some (x, st) \<Rightarrow> probes st)"

text \<open>
  A service with a command, and a run in which the context is never cancelled and
  every readiness check fails after a tenth of a second.
\<close>

definition test_service :: DBService where
  "test_service = \<lparr>Name = ''postgres'', Service = ''postgres'',
                    ReadyCheck = [''docker'', ''exec'', ''benchmark-postgres'', ''pg_isready'']\<rparr>"

definition never_ready :: wr_env where
  "never_ready = \<lparr>cancel_at = None, probe = (\<lambda>k. (100 * millisecond_ns, False)), pick = (\<lambda>k. 0)\<rparr>"

text \<open>
  The time of the \<open>j\<close>-th tick of a ticker started at \<open>g\<close>, and what holds of the state
  of the loop from the start on: a tick waits only when the first tick has passed, and
  every readiness check was started at or after the first tick.
\<close>

definition tick_time :: "int \<Rightarrow> nat \<Rightarrow> int" where
  "tick_time g j = g + (int j + 1) * poll_interval"

definition wr_inv :: "int \<Rightarrow> wr_state \<Rightarrow> bool" where
  "wr_inv g st = ((pending st \<longrightarrow> g + poll_interval \<le> wr_now st)
                 \<and> g + poll_interval \<le> next_tick st
                 \<and> (\<forall>p \<in> set (probes st). g + poll_interval \<le> p))"

section \<open>Generate: number and sizes of the batches\<close>

lemma ceil_div_last: "0 < (x::int) \<Longrightarrow> x < B \<Longrightarrow> (x + B - 1) div B = 1"
proof -
  assume h: "0 < x" "x < B"
  have "(x + B - 1) div B = ((x - 1) + B) div B" by (simp add: algebra_simps)
  also have "\<dots> = (x - 1) div B + 1" using h by (subst div_add_self2) auto
  also have "(x - 1) div B = 0" using h by (simp add: div_pos_pos_trivial)
  finally show ?thesis by simp
qed

lemma ceil_div_step: "1 \<le> (B::int) \<Longrightarrow> (x + B - 1) div B = (x - B + B - 1) div B + 1"
proof -
  assume h: "1 \<le> B"
  have "(x + B - 1) div B = ((x - 1) + B) div B" by (simp add: algebra_simps)
  also have "\<dots> = (x - 1) div B + 1" using h by (subst div_add_self2) auto
  finally show ?thesis by simp
qed

lemma Generate_loop_sizes:
  assumes "1 \<le> batchSize g" "current g \<le> totalEvents g"
  shows "\<exists>bs g'. Generate_loop addDate ds g = Returns (bs, g')
           \<and> current g' = totalEvents g
           \<and> map (\<lambda>b. int (length b)) bs
               = map (\<lambda>k. min (batchSize g) (totalEvents g - current g - int k * batchSize g))
                     [0..<nat ((totalEvents g - current g + batchSize g - 1) div batchSize g)]"
  using assms
proof (induction addDate ds g rule: Generate_loop.induct)
  case (1 addDate ds g)
  define T where "T = totalEvents g"
  define B where "B = batchSize g"
  define c where "c = current g"
  have B1: "1 \<le> B" and cT: "c \<le> T" using "1.prems" by (simp_all add: B_def c_def T_def)
  show ?case
  proof (cases "c < T")
    case False
    then have "c = T" using cT by simp
    then have "(T - c + B - 1) div B = 0" using B1 by simp
    then show ?thesis
      using False \<open>c = T\<close>
      by (subst Generate_loop.simps) (simp add: T_def B_def c_def)
  next
    case True
    define sz where "sz = (if T - c < B then T - c else B)"
    have s0: "0 < sz" and sB: "sz \<le> B" and sR: "sz \<le> T - c"
      using True B1 by (auto simp: sz_def)
    let ?g = "g\<lparr>current := c + sz\<rparr>"
    have IH: "\<exists>bs g'. Generate_loop addDate ds ?g = Returns (bs, g')
           \<and> current g' = totalEvents ?g
           \<and> map (\<lambda>b. int (length b)) bs
               = map (\<lambda>k. min (batchSize ?g) (totalEvents ?g - current ?g - int k * batchSize ?g))
                     [0..<nat ((totalEvents ?g - current ?g + batchSize ?g - 1) div batchSize ?g)]"
      using "1.IH"[of "T - c" sz] True s0 sR B1
      by (simp add: T_def B_def c_def sz_def split: if_splits)
    then obtain bs g' where
      run: "Generate_loop addDate ds ?g = Returns (bs, g')" and
      fin: "current g' = T" and
      szs: "map (\<lambda>b. int (length b)) bs
               = map (\<lambda>k. min B (T - (c + sz) - int k * B))
                     [0..<nat ((T - (c + sz) + B - 1) div B)]"
      by (auto simp: T_def B_def)
    have step: "Generate_loop addDate ds g
                  = Returns (make_batch addDate ds c sz # bs, g')"
    proof -
      have e: "(if totalEvents g - current g < batchSize g
                then totalEvents g - current g else batchSize g) = sz"
        by (simp add: sz_def T_def B_def c_def)
      have r: "Generate_loop addDate ds (g\<lparr>current := current g + sz\<rparr>) = Returns (bs, g')"
        using run by (simp add: c_def)
      have lt: "current g < totalEvents g" using True by (simp add: T_def c_def)
      show ?thesis
        by (subst Generate_loop.simps) (use lt s0 r in \<open>simp add: Let_def e c_def\<close>)
    qed
    have len: "int (length (make_batch addDate ds c sz)) = sz"
      using s0 by (simp add: make_batch_def)
    define n where "n = nat ((T - c + B - 1) div B)"
    define m where "m = nat ((T - (c + sz) + B - 1) div B)"
    have nm: "n = Suc m"
    proof (cases "T - c < B")
      case True
      then have "sz = T - c" by (simp add: sz_def)
      moreover have "(T - c + B - 1) div B = 1"
        using True \<open>c < T\<close> by (intro ceil_div_last) simp_all
      ultimately show ?thesis using B1 by (simp add: n_def m_def)
    next
      case False
      then have szB: "sz = B" by (simp add: sz_def)
      have "(T - c + B - 1) div B = (T - (c + B) + B - 1) div B + 1"
        using ceil_div_step [OF B1, of "T - c"] by (simp add: algebra_simps)
      moreover have "0 \<le> (T - (c + B) + B - 1) div B"
        using False B1 by (simp add: pos_imp_zdiv_nonneg_iff)
      ultimately show ?thesis by (simp add: n_def m_def szB)
    qed
    have shift: "map (\<lambda>k. min B (T - c - int k * B)) [0..<Suc m]
                 = min B (T - c) # map (\<lambda>k. min B (T - (c + sz) - int k * B)) [0..<m]"
    proof -
      have "map (\<lambda>k. min B (T - c - int k * B)) [0..<Suc m]
            = min B (T - c) # map (\<lambda>k. min B (T - c - int (Suc k) * B)) [0..<m]"
        by (simp add: upt_conv_Cons map_Suc_upt [symmetric] del: upt_Suc)
      moreover have "map (\<lambda>k. min B (T - c - int (Suc k) * B)) [0..<m]
                   = map (\<lambda>k. min B (T - (c + sz) - int k * B)) [0..<m]"
      proof (cases "m = 0")
        case True then show ?thesis by simp
      next
        case False
        then have "sz = B"
          using B1 True by (auto simp: m_def sz_def split: if_splits)
        then show ?thesis by (simp add: algebra_simps)
      qed
      ultimately show ?thesis by simp
    qed
    have "min B (T - c) = sz" by (simp add: sz_def min_def)
    then have "map (\<lambda>b. int (length b)) (make_batch addDate ds c sz # bs)
               = map (\<lambda>k. min B (T - c - int k * B)) [0..<n]"
      using len szs shift nm by (simp add: m_def)
    then show ?thesis
      using step fin by (simp add: T_def B_def c_def n_def)
  qed
qed

lemma ceil_div_real:
  assumes "1 \<le> (b::int)"
  shows "\<lceil>real_of_int n / real_of_int b\<rceil> = (n + b - 1) div b"
proof -
  define z where "z = (n + b - 1) div b"
  have b0: "0 < b" using assms by simp
  have m: "n + b - 1 = z * b + (n + b - 1) mod b" by (simp add: z_def)
  have m0: "0 \<le> (n + b - 1) mod b" and mb: "(n + b - 1) mod b < b"
    using b0 by simp_all
  have up: "n \<le> z * b" using m mb by linarith
  have lo: "(z - 1) * b < n" using m m0 by (simp add: algebra_simps) 
  have "real_of_int n \<le> real_of_int (z * b)" using up by linarith
  then have u: "real_of_int n / real_of_int b \<le> real_of_int z"
    using b0 by (simp add: pos_divide_le_eq)
  have "real_of_int ((z - 1) * b) < real_of_int n" using lo by linarith
  then have l: "real_of_int z - 1 < real_of_int n / real_of_int b"
    using b0 by (simp add: pos_less_divide_eq)
  show ?thesis unfolding z_def [symmetric] using u l by (intro ceiling_unique) simp_all
qed

lemma ceil_div_rem:
  assumes "1 \<le> (b::int)" "n mod b \<noteq> 0"
  shows "(n + b - 1) div b = n div b + 1"
proof -
  have "0 \<le> n mod b" using assms by simp
  then have r1: "0 < n mod b" using assms(2) by arith
  have r2: "n mod b < b" using assms by simp
  have eq: "n + b - 1 = (n mod b - 1) + (n div b + 1) * b"
    by (simp add: algebra_simps)
  have "(n + b - 1) div b = ((n mod b - 1) + (n div b + 1) * b) div b"
    by (rule arg_cong [where f = "\<lambda>x. x div b", OF eq])
  also have "\<dots> = (n mod b - 1) div b + (n div b + 1)"
    using assms by (subst div_mult_self1) simp_all
  also have "(n mod b - 1) div b = 0" using r1 r2 by (simp add: div_pos_pos_trivial)
  finally show ?thesis by simp
qed


lemma Generate_loop_step:
  assumes "current g < totalEvents g"
    and "sz = (if totalEvents g - current g < batchSize g
               then totalEvents g - current g else batchSize g)"
    and "0 < sz"
  shows "Generate_loop addDate ds g =
           (case Generate_loop addDate ds (g\<lparr>current := current g + sz\<rparr>) of
              Returns (bs, g') \<Rightarrow> Returns (make_batch addDate ds (current g) sz # bs, g')
            | Panics \<Rightarrow> Panics | Hangs \<Rightarrow> Hangs)"
  using assms
  by (subst Generate_loop.simps) (auto simp: Let_def split: outcome.splits)

lemma Generate_loop_sum:
  assumes "1 \<le> batchSize g" "current g \<le> totalEvents g"
    and "Generate_loop addDate ds g = Returns (bs, g')"
  shows "(\<Sum>b\<leftarrow>bs. int (length b)) = totalEvents g - current g
         \<and> (\<forall>b \<in> set bs. 0 < length b \<and> int (length b) \<le> batchSize g)"
  using assms
proof (induction addDate ds g arbitrary: bs g' rule: Generate_loop.induct)
  case (1 addDate ds g)
  show ?case
  proof (cases "current g < totalEvents g")
    case False
    then have "Generate_loop addDate ds g = Returns ([], g)"
      by (subst Generate_loop.simps) simp
    then show ?thesis using "1.prems" False by simp
  next
    case True
    define sz where "sz = (if totalEvents g - current g < batchSize g
                           then totalEvents g - current g else batchSize g)"
    have s0: "0 < sz" and sB: "sz \<le> batchSize g" and sR: "sz \<le> totalEvents g - current g"
      using True "1.prems"(1) by (auto simp: sz_def)
    let ?g = "g\<lparr>current := current g + sz\<rparr>"
    have unf: "Generate_loop addDate ds g =
                 (case Generate_loop addDate ds ?g of
                    Returns (bs, g') \<Rightarrow> Returns (make_batch addDate ds (current g) sz # bs, g')
                  | Panics \<Rightarrow> Panics | Hangs \<Rightarrow> Hangs)"
      using True s0 by (intro Generate_loop_step) (simp_all add: sz_def)
    then obtain bs0 where
      r: "Generate_loop addDate ds ?g = Returns (bs0, g')" and
      b: "bs = make_batch addDate ds (current g) sz # bs0"
      using "1.prems"(3) by (auto split: outcome.splits)
    have IH: "(\<Sum>b\<leftarrow>bs0. int (length b)) = totalEvents ?g - current ?g
         \<and> (\<forall>b \<in> set bs0. 0 < length b \<and> int (length b) \<le> batchSize ?g)"
      using "1.IH"[of "totalEvents g - current g" sz bs0 g'] True s0 sR "1.prems"(1) r
      by (simp add: sz_def split: if_splits)
    have len: "int (length (make_batch addDate ds (current g) sz)) = sz"
      using s0 by (simp add: make_batch_def)
    show ?thesis
      using IH len s0 sB by (auto simp: b)
  qed
qed


section \<open>Claim C2\<close>

text \<open>
  C2. For every \<open>totalCount \<ge> 0\<close> and \<open>batchSize \<ge> 1\<close>, the sequence of a fresh
  generator completes, emits exactly \<open>ceil(totalCount / batchSize)\<close> batches, each of
  size at most \<open>batchSize\<close>, whose sizes sum to \<open>totalCount\<close>; when
  \<open>totalCount mod batchSize\<close> is not zero the last batch holds that remainder; and
  for \<open>totalCount = 0\<close> it emits no batch.
\<close>

theorem C2_Generate_batches:
  assumes "0 \<le> n" "1 \<le> bsz"
  shows "\<exists>bs g'. Generate addDate ds (New n bsz) = Returns (bs, g')
           \<and> int (length bs) = \<lceil>real_of_int n / real_of_int bsz\<rceil>
           \<and> (\<forall>b \<in> set bs. int (length b) \<le> bsz)
           \<and> (\<Sum>b\<leftarrow>bs. int (length b)) = n
           \<and> (n mod bsz \<noteq> 0 \<longrightarrow> int (length (last bs)) = n mod bsz)
           \<and> (n = 0 \<longrightarrow> bs = [])"
proof -
  let ?g = "New n bsz"
  have g: "batchSize ?g = bsz" "totalEvents ?g = n" "current ?g = 0"
    by (simp_all add: New_def)
  define k where "k = nat ((n + bsz - 1) div bsz)"
  obtain bs g' where
    run: "Generate_loop addDate ds ?g = Returns (bs, g')" and
    szs: "map (\<lambda>b. int (length b)) bs = map (\<lambda>j. min bsz (n - int j * bsz)) [0..<k]"
    using Generate_loop_sizes [of ?g addDate ds] assms by (auto simp: g k_def)
  have sums: "(\<Sum>b\<leftarrow>bs. int (length b)) = n"
    and bound: "\<forall>b \<in> set bs. int (length b) \<le> bsz"
    using Generate_loop_sum [OF _ _ run] assms by (simp_all add: g)
  have nn: "0 \<le> (n + bsz - 1) div bsz"
    using assms by (simp add: pos_imp_zdiv_nonneg_iff)
  have "length (map (\<lambda>b. int (length b)) bs) = k" by (simp add: szs)
  then have lk: "length bs = k" by simp
  have cnt: "int (length bs) = \<lceil>real_of_int n / real_of_int bsz\<rceil>"
    using lk nn by (simp add: ceil_div_real [OF assms(2)] k_def)
  have lastb: "int (length (last bs)) = n mod bsz" if r: "n mod bsz \<noteq> 0"
  proof -
    have n0: "0 < n" using r assms by (cases "n = 0") auto
    have d0: "0 \<le> n div bsz" using assms by (simp add: pos_imp_zdiv_nonneg_iff)
    have kpos: "k = Suc (nat (n div bsz))"
      using d0 by (simp add: k_def ceil_div_rem [OF assms(2) r] nat_add_distrib)
    then have ne: "bs \<noteq> []" using lk by auto
    have "int (length (last bs)) = last (map (\<lambda>b. int (length b)) bs)"
      using ne by (simp add: last_map)
    also have "\<dots> = min bsz (n - int (nat (n div bsz)) * bsz)"
      by (simp add: szs kpos)
    also have "int (nat (n div bsz)) = n div bsz"
      using d0 by simp
    also have "n - n div bsz * bsz = n mod bsz"
      by (simp add: minus_div_mult_eq_mod)
    also have "min bsz (n mod bsz) = n mod bsz"
      using assms pos_mod_bound [of bsz n] by simp
    finally show ?thesis .
  qed
  have empty: "bs = []" if "n = 0"
    using that lk assms by (simp add: k_def)
  show ?thesis
    unfolding Generate_def
    by (intro exI [of _ bs] exI [of _ g'] conjI impI run cnt bound sums lastb empty)
qed

theorem C2_Generate_batches_witness:
  "(0::int) \<le> 25 \<and> (1::int) \<le> 10
   \<and> (\<exists>bs g'. Generate (\<lambda>t n. t + n * 86400000000000) (\<lambda>k. undefined) (New 25 10) = Returns (bs, g')
        \<and> map length bs = [10, 10, 5]
        \<and> int (length bs) = \<lceil>real_of_int 25 / real_of_int 10\<rceil>
        \<and> (\<Sum>b\<leftarrow>bs. int (length b)) = 25)"
proof -
  obtain bs g' where
    r: "Generate (\<lambda>t n. t + n * 86400000000000) (\<lambda>k. undefined) (New 25 10) = Returns (bs, g')"
    and c: "int (length bs) = \<lceil>real_of_int 25 / real_of_int 10\<rceil>"
    and s: "(\<Sum>b\<leftarrow>bs. int (length b)) = 25"
    using C2_Generate_batches [of 25 10 "\<lambda>t n. t + n * 86400000000000" "\<lambda>k. undefined"]
    by auto
  have "map length (batches_of (Generate (\<lambda>t n. t + n * 86400000000000) (\<lambda>k. undefined) (New 25 10)))
          = [10, 10, 5]"
    by (simp add: Generate_def New_def Generate_loop.simps batches_of_def make_batch_def Let_def)
  then have "map length bs = [10, 10, 5]" by (simp add: r batches_of_def)
  then show ?thesis using r c s by auto
qed

section \<open>The IDs of the generated events\<close>

























section \<open>Rounding in float64\<close>

lemma pow2_pos [simp]: "0 < pow2 k"
  by (simp add: pow2_def)

lemma pow2_nonneg [simp]: "0 \<le> pow2 k"
  by (simp add: pow2_def)

lemma pow2_abs [simp]: "\<bar>pow2 k\<bar> = pow2 k"
  by (simp add: pow2_def)

lemma pow2_nonneg_eq: "0 \<le> k \<Longrightarrow> real_of_int (pow2 k) = 2 powi k"
  by (simp add: pow2_def power_int_def)

lemma pow2_neg_eq: "k \<le> 0 \<Longrightarrow> pow2 k = 1"
  by (simp add: pow2_def)

lemma pow2_ratio: "real_of_int (pow2 j) / real_of_int (pow2 (- j)) = 2 powi j"
proof (cases "0 \<le> j")
  case True
  then show ?thesis by (simp add: pow2_nonneg_eq pow2_neg_eq)
next
  case False
  then have a: "real_of_int (pow2 (- j)) = 2 powi (- j)" by (simp add: pow2_nonneg_eq)
  have b: "pow2 j = 1" using False by (simp add: pow2_neg_eq)
  show ?thesis unfolding a b by (simp add: power_int_minus divide_inverse)
qed

lemma rne_div_bounds:
  assumes "0 \<le> N" "0 < D"
  shows "\<bar>real_of_int (rne_div N D) - real_of_int N / real_of_int D\<bar> \<le> 1 / 2"
proof -
  define q where "q = N div D"
  define r where "r = N mod D"
  have N: "N = q * D + r" by (simp add: q_def r_def)
  have r0: "0 \<le> r" and rD: "r < D" using assms by (simp_all add: r_def)
  have D0: "0 < real_of_int D" using assms by simp
  have frac: "real_of_int N / real_of_int D = real_of_int q + real_of_int r / real_of_int D"
    using D0 by (simp add: N field_simps)
  show ?thesis
  proof (cases "D < 2 * r \<or> (2 * r = D \<and> odd q)")
    case True
    then have e: "rne_div N D = q + 1" by (simp add: rne_div_def q_def r_def Let_def)
    have "D \<le> 2 * r" using True by auto
    then have "real_of_int D \<le> 2 * real_of_int r" by linarith
    then have "1 / 2 \<le> real_of_int r / real_of_int D" using D0 by (simp add: field_simps)
    moreover have "real_of_int r / real_of_int D < 1" using D0 rD by simp
    ultimately show ?thesis by (simp add: e frac)
  next
    case False
    then have e: "rne_div N D = q" by (simp add: rne_div_def q_def r_def Let_def)
    have "2 * r \<le> D" using False by auto
    then have "2 * real_of_int r \<le> real_of_int D" by linarith
    then have "real_of_int r / real_of_int D \<le> 1 / 2" using D0 by (simp add: field_simps)
    moreover have "0 \<le> real_of_int r / real_of_int D" using D0 r0 by simp
    ultimately show ?thesis by (simp add: e frac)
  qed
qed

lemma rne_div_nonneg: "0 \<le> N \<Longrightarrow> 0 < D \<Longrightarrow> 0 \<le> rne_div N D"
  by (simp add: rne_div_def Let_def pos_imp_zdiv_nonneg_iff)

lemma rne_div_exact:
  assumes "0 < D" "N = j * D"
  shows "rne_div N D = j"
  using assms by (simp add: rne_div_def Let_def)

lemma floor_log_ratio:
  assumes "0 < a" "0 < d"
  defines "L \<equiv> bitlen a - bitlen d"
  defines "t \<equiv> (if d * pow2 L \<le> a * pow2 (- L) then L else L - 1)"
  shows "2 powi t \<le> real_of_int a / real_of_int d"
    and "real_of_int a / real_of_int d < 2 powi (t + 1)"
proof -
  have ba: "2 ^ nat (bitlen a - 1) \<le> a" "a < 2 ^ nat (bitlen a)"
    using bitlen_bounds [OF assms(1)] by simp_all
  have bd: "2 ^ nat (bitlen d - 1) \<le> d" "d < 2 ^ nat (bitlen d)"
    using bitlen_bounds [OF assms(2)] by simp_all
  have pa: "1 \<le> bitlen a" using assms(1) by (simp add: bitlen_alt_def)
  have pd: "1 \<le> bitlen d" using assms(2) by (simp add: bitlen_alt_def)
  have ra: "2 powi (bitlen a - 1) \<le> real_of_int a" "real_of_int a < 2 powi (bitlen a)"
  proof -
    have "real_of_int (2 ^ nat (bitlen a - 1)) \<le> real_of_int a" using ba(1) by linarith
    then show "2 powi (bitlen a - 1) \<le> real_of_int a" using pa by (simp add: power_int_def)
    have "real_of_int a < real_of_int (2 ^ nat (bitlen a))" using ba(2) by linarith
    then show "real_of_int a < 2 powi (bitlen a)" using pa by (simp add: power_int_def)
  qed
  have rd: "2 powi (bitlen d - 1) \<le> real_of_int d" "real_of_int d < 2 powi (bitlen d)"
  proof -
    have "real_of_int (2 ^ nat (bitlen d - 1)) \<le> real_of_int d" using bd(1) by linarith
    then show "2 powi (bitlen d - 1) \<le> real_of_int d" using pd by (simp add: power_int_def)
    have "real_of_int d < real_of_int (2 ^ nat (bitlen d))" using bd(2) by linarith
    then show "real_of_int d < 2 powi (bitlen d)" using pd by (simp add: power_int_def)
  qed
  have d0: "0 < real_of_int d" using assms(2) by simp
  have a0: "0 < real_of_int a" using assms(1) by simp
  have lo: "2 powi (L - 1) < real_of_int a / real_of_int d"
  proof -
    have "2 powi (L - 1) * real_of_int d < 2 powi (L - 1) * 2 powi (bitlen d)"
      using rd(2) by (simp add: mult_strict_left_mono)
    also have "\<dots> = 2 powi (bitlen a - 1)"
      by (simp add: L_def power_int_add [symmetric])
    also have "\<dots> \<le> real_of_int a" by (rule ra(1))
    finally show ?thesis using d0 by (simp add: pos_less_divide_eq)
  qed
  have hi: "real_of_int a / real_of_int d < 2 powi (L + 1)"
  proof -
    have "real_of_int a < 2 powi (bitlen a)" by (rule ra(2))
    also have "\<dots> = 2 powi (L + 1) * 2 powi (bitlen d - 1)"
      by (simp add: L_def power_int_add [symmetric])
    also have "\<dots> \<le> 2 powi (L + 1) * real_of_int d"
      using rd(1) by (simp add: mult_left_mono)
    finally show ?thesis using d0 by (simp add: pos_divide_less_eq)
  qed
  have test: "(d * pow2 L \<le> a * pow2 (- L)) = (2 powi L \<le> real_of_int a / real_of_int d)"
  proof -
    have p: "0 < real_of_int (pow2 (- L))" by simp
    have "(d * pow2 L \<le> a * pow2 (- L))
          = (real_of_int d * real_of_int (pow2 L) \<le> real_of_int a * real_of_int (pow2 (- L)))"
      by (metis of_int_le_iff of_int_mult)
    also have "\<dots> = (real_of_int (pow2 L) / real_of_int (pow2 (- L)) \<le> real_of_int a / real_of_int d)"
      using d0 p by (simp add: field_simps)
    finally show ?thesis by (simp add: pow2_ratio)
  qed
  show "2 powi t \<le> real_of_int a / real_of_int d"
    using test lo by (auto simp: t_def)
  show "real_of_int a / real_of_int d < 2 powi (t + 1)"
    using test hi by (auto simp: t_def)
qed

lemma f64_round_pos:
  assumes "0 < n" "0 < d"
  shows "\<exists>q k t. f64_round n d e = (if 1024 < bitlen q + k then PosInf else Finite q k)
           \<and> 0 \<le> q
           \<and> \<bar>real_of_int q * 2 powi k - real_of_int n / real_of_int d * 2 powi e\<bar> \<le> 2 powi k / 2
           \<and> 2 powi t \<le> real_of_int n / real_of_int d * 2 powi e
           \<and> real_of_int n / real_of_int d * 2 powi e < 2 powi (t + 1)
           \<and> k = max (t - 52) (- 1074)
           \<and> q = rne_div (n * pow2 (e - k)) (d * pow2 (k - e))"
proof -
  define x where "x = real_of_int n / real_of_int d * 2 powi e"
  define L where "L = bitlen n - bitlen d"
  define t0 where "t0 = (if d * pow2 L \<le> n * pow2 (- L) then L else L - 1)"
  define t where "t = t0 + e"
  define k where "k = max (t - 52) (- 1074)"
  define N where "N = n * pow2 (e - k)"
  define D where "D = d * pow2 (k - e)"
  define q where "q = rne_div N D"
  have abs: "\<bar>n\<bar> = n" using assms by simp
  have unf: "f64_round n d e = (if 1024 < bitlen q + k then PosInf else Finite q k)"
    using assms
    by (simp add: f64_round_def abs Let_def q_def N_def D_def k_def t_def t0_def L_def)
  have N0: "0 \<le> N" using assms by (simp add: N_def)
  have D0: "0 < D" using assms by (simp add: D_def)
  have q0: "0 \<le> q" unfolding q_def by (rule rne_div_nonneg [OF N0 D0])
  have fl: "2 powi t0 \<le> real_of_int n / real_of_int d"
           "real_of_int n / real_of_int d < 2 powi (t0 + 1)"
    unfolding t0_def L_def by (rule floor_log_ratio [OF assms])+
  have e0: "0 < (2::real) powi e" by simp
  have lo: "2 powi t \<le> x"
  proof -
    have "2 powi t0 * 2 powi e \<le> real_of_int n / real_of_int d * 2 powi e"
      by (rule mult_right_mono [OF fl(1)]) simp
    moreover have "(2::real) powi t = 2 powi t0 * 2 powi e"
      by (simp add: t_def power_int_add)
    ultimately show ?thesis by (simp only: x_def)
  qed
  have hi: "x < 2 powi (t + 1)"
  proof -
    have "real_of_int n / real_of_int d * 2 powi e < 2 powi (t0 + 1) * 2 powi e"
      by (rule mult_strict_right_mono [OF fl(2) e0])
    moreover have "(2::real) powi (t0 + 1) * 2 powi e = 2 powi (t + 1)"
      by (simp add: t_def power_int_add)
    ultimately show ?thesis by (simp only: x_def)
  qed
  have ratio: "real_of_int N / real_of_int D = x * 2 powi (- k)"
  proof -
    have "real_of_int N / real_of_int D
          = real_of_int n / real_of_int d * (real_of_int (pow2 (e - k)) / real_of_int (pow2 (- (e - k))))"
      by (simp add: N_def D_def)
    also have "\<dots> = real_of_int n / real_of_int d * 2 powi (e - k)"
      by (simp only: pow2_ratio)
    also have "\<dots> = x * 2 powi (- k)"
      by (simp add: x_def power_int_add [symmetric] mult.assoc)
    finally show ?thesis .
  qed
  have err: "\<bar>real_of_int q * 2 powi k - x\<bar> \<le> 2 powi k / 2"
  proof -
    have b: "\<bar>real_of_int q - x * 2 powi (- k)\<bar> \<le> 1 / 2"
      using rne_div_bounds [OF N0 D0] by (simp add: q_def ratio)
    have "real_of_int q * 2 powi k - x = (real_of_int q - x * 2 powi (- k)) * 2 powi k"
      by (simp add: algebra_simps power_int_add [symmetric] mult.assoc)
    then have "\<bar>real_of_int q * 2 powi k - x\<bar> = \<bar>real_of_int q - x * 2 powi (- k)\<bar> * 2 powi k"
      by (simp add: abs_mult)
    also have "\<dots> \<le> 1 / 2 * 2 powi k"
      using b by (intro mult_right_mono) simp_all
    finally show ?thesis by simp
  qed
  show ?thesis
    using unf q0 err lo hi k_def q_def N_def D_def
    unfolding x_def by blast
qed

lemma bitlen_overflow:
  assumes "0 < q" "E < bitlen q + k"
  shows "2 powi E \<le> real_of_int q * 2 powi k"
proof -
  have q0: "0 < q" by (rule assms(1))
  have b1: "1 \<le> bitlen q" using q0 by (simp add: bitlen_alt_def)
  have "2 ^ nat (bitlen q - 1) \<le> q" using bitlen_bounds [OF q0] by simp
  then have "real_of_int (2 ^ nat (bitlen q - 1)) \<le> real_of_int q" by linarith
  then have c: "2 powi (bitlen q - 1) \<le> real_of_int q" using b1 by (simp add: power_int_def)
  have "(2::real) powi E \<le> 2 powi (bitlen q - 1 + k)"
    using assms by (intro power_int_increasing) simp_all
  also have "\<dots> = 2 powi (bitlen q - 1) * 2 powi k"
    by (simp add: power_int_add)
  also have "\<dots> \<le> real_of_int q * 2 powi k"
    using c by (intro mult_right_mono) simp_all
  finally show ?thesis .
qed

lemma no_overflow:
  assumes "0 \<le> q" "real_of_int q * 2 powi k < 2 powi E" "k \<le> E"
  shows "\<not> E < bitlen q + k"
proof (cases "q = 0")
  case True
  then show ?thesis using assms(3) by simp
next
  case False
  then have "0 < q" using assms(1) by simp
  then show ?thesis using bitlen_overflow [of q E k] assms(2) by fastforce
qed

lemma trunc_floor:
  assumes "0 \<le> q"
  shows "trunc_quot (q * pow2 k) (pow2 (- k)) = \<lfloor>real_of_int q * 2 powi k\<rfloor>"
proof -
  have "trunc_quot (q * pow2 k) (pow2 (- k)) = (q * pow2 k) div pow2 (- k)"
  proof (cases "q = 0")
    case True then show ?thesis by (simp add: trunc_quot_def)
  next
    case False
    then have p: "0 < q * pow2 k" using assms by simp
    have "sgn (q * pow2 k) = 1" "\<bar>q * pow2 k\<bar> = q * pow2 k"
      using p by simp_all
    moreover have "sgn (pow2 (- k)) = 1" "\<bar>pow2 (- k)\<bar> = pow2 (- k)"
      using pow2_pos [of "- k"] by simp_all
    ultimately show ?thesis
      unfolding trunc_quot_def by (simp only: mult_1)
  qed
  also have "\<dots> = \<lfloor>real_of_int (q * pow2 k) / real_of_int (pow2 (- k))\<rfloor>"
    by (simp only: floor_divide_of_int_eq)
  also have "real_of_int (q * pow2 k) / real_of_int (pow2 (- k))
             = real_of_int q * (real_of_int (pow2 k) / real_of_int (pow2 (- k)))"
    by simp
  also have "\<dots> = real_of_int q * 2 powi k"
    by (simp only: pow2_ratio)
  finally show ?thesis .
qed

lemma powi_le_imp_le:
  assumes "(2::real) powi a \<le> x" "x < 2 powi b"
  shows "a < b"
proof (rule ccontr)
  assume "\<not> a < b"
  then have "b \<le> a" by simp
  then have "(2::real) powi b \<le> 2 powi a" by (intro power_int_increasing) simp_all
  then show False using assms by linarith
qed

lemma half_ulp_bound:
  assumes "k = max (t - P) M" "(2::real) powi t \<le> x"
  shows "2 powi (k - 1) \<le> x * 2 powi (- (P + 1)) + 2 powi (M - 1)"
proof -
  have x0: "0 < x" using assms(2) by (smt (verit) zero_less_power_int)
  show ?thesis
  proof (cases "t - P \<le> M")
    case True
    then have "k - 1 = M - 1" using assms(1) by simp
    then have "(2::real) powi (k - 1) = 2 powi (M - 1)" by (rule arg_cong)
    moreover have "0 \<le> x * 2 powi (- (P + 1))" using x0 by simp
    ultimately show ?thesis by linarith
  next
    case False
    then have "k - 1 = t + (- (P + 1))" using assms(1) by simp
    then have "(2::real) powi (k - 1) = 2 powi (t + (- (P + 1)))" by (rule arg_cong)
    also have "\<dots> = 2 powi t * 2 powi (- (P + 1))"
      by (rule power_int_add) simp
    also have "\<dots> \<le> x * 2 powi (- (P + 1))"
      by (rule mult_right_mono [OF assms(2)]) simp
    finally show ?thesis
      by (smt (verit) zero_less_power_int)
  qed
qed

lemma double_powi: "(2::real) powi E + 2 powi E = 2 powi (E + 1)"
  by (simp add: power_int_add)

lemma half_ulp: "(2::real) powi k / 2 = 2 powi (k - 1)"
  by (simp add: power_int_diff)

lemma f64_round_err:
  assumes "0 < n" "0 < d"
    and "real_of_int n / real_of_int d * 2 powi e < 2 powi E" "E \<le> 1023"
  shows "\<exists>q k. f64_round n d e = Finite q k \<and> 0 \<le> q
           \<and> \<bar>real_of_int q * 2 powi k - real_of_int n / real_of_int d * 2 powi e\<bar>
                \<le> real_of_int n / real_of_int d * 2 powi e * 2 powi (- 53) + 2 powi (- 1075)"
proof -
  define x where "x = real_of_int n / real_of_int d * 2 powi e"
  obtain q k t where
    r: "f64_round n d e = (if 1024 < bitlen q + k then PosInf else Finite q k)" and
    q0: "0 \<le> q" and
    err: "\<bar>real_of_int q * 2 powi k - x\<bar> \<le> 2 powi k / 2" and
    lo: "2 powi t \<le> x" and hi: "x < 2 powi (t + 1)" and
    k: "k = max (t - 52) (- 1074)"
    using f64_round_pos [OF assms(1,2), of e] unfolding x_def by blast
  have xE: "x < 2 powi E" using assms(3) by (simp only: x_def)
  have tE: "t < E" using powi_le_imp_le [OF lo xE] .
  have x0: "0 < x" using lo by (smt (verit) zero_less_power_int)
  have half: "(2::real) powi k / 2 = 2 powi (k - 1)" by (rule half_ulp)
  have c1: "- (52 + 1) = (- 53::int)" and c2: "- 1074 - 1 = (- 1075::int)"
    and c3: "1023 + 1 = (1024::int)" by simp_all
  have kb: "(2::real) powi (k - 1) \<le> x * 2 powi (- 53) + 2 powi (- 1075)"
    using half_ulp_bound [OF k lo] by (simp only: c1 c2)
  have err2: "\<bar>real_of_int q * 2 powi k - x\<bar> \<le> x * 2 powi (- 53) + 2 powi (- 1075)"
    using err half kb by linarith
  have small: "real_of_int q * 2 powi k < 2 powi 1024"
  proof -
    have a: "real_of_int q * 2 powi k \<le> x + 2 powi (k - 1)" using err half by linarith
    have "k - 1 \<le> 1023" using k tE assms(4) by simp
    then have b: "(2::real) powi (k - 1) \<le> 2 powi 1023"
      by (intro power_int_increasing) simp_all
    have "(2::real) powi E \<le> 2 powi 1023"
      using assms(4) by (intro power_int_increasing) simp_all
    then have c: "x < 2 powi 1023" using xE by linarith
    have "(2::real) powi 1023 + 2 powi 1023 = 2 powi (1023 + 1)"
      by (rule double_powi)
    then have d: "(2::real) powi 1023 + 2 powi 1023 = 2 powi 1024"
      by (simp only: c3)
    show ?thesis using a b c d by linarith
  qed
  have "k \<le> 1024" using k tE assms(4) by simp
  then have "\<not> 1024 < bitlen q + k" using no_overflow [OF q0 small] by simp
  then have "f64_round n d e = Finite q k" using r by simp
  then show ?thesis using q0 err2 unfolding x_def by blast
qed

lemma scaled_ratio:
  "real_of_int (n * pow2 (e - k)) / real_of_int (d * pow2 (k - e))
     = real_of_int n / real_of_int d * 2 powi (e - k)"
proof -
  have "real_of_int (n * pow2 (e - k)) / real_of_int (d * pow2 (k - e))
        = real_of_int n / real_of_int d
          * (real_of_int (pow2 (e - k)) / real_of_int (pow2 (- (e - k))))"
    by simp
  then show ?thesis by (simp only: pow2_ratio)
qed

lemma div_int_eq:
  assumes "0 < (D::int)" "real_of_int N / real_of_int D = real_of_int J"
  shows "N = J * D"
proof -
  have "real_of_int N = real_of_int J * real_of_int D"
    using assms by (simp add: field_simps)
  then have "real_of_int N = real_of_int (J * D)" by simp
  then show ?thesis by (simp only: of_int_eq_iff)
qed

lemma powi_le_one: "k \<le> 0 \<Longrightarrow> (2::real) powi k \<le> 1"
  using power_int_increasing [of k 0 "2::real"] by simp

lemma f64_round_exact:
  assumes "0 < n" "0 < d" "0 < j" "j < 2 ^ 53"
    and "real_of_int n / real_of_int d * 2 powi e = real_of_int j"
  shows "\<exists>q k. f64_round n d e = Finite q k \<and> 0 \<le> q \<and> real_of_int q * 2 powi k = real_of_int j"
proof -
  obtain q k t where
    r: "f64_round n d e = (if 1024 < bitlen q + k then PosInf else Finite q k)" and
    q0: "0 \<le> q" and
    lo: "2 powi t \<le> real_of_int j" and hi: "real_of_int j < 2 powi (t + 1)" and
    k: "k = max (t - 52) (- 1074)" and
    q: "q = rne_div (n * pow2 (e - k)) (d * pow2 (k - e))"
    using f64_round_pos [OF assms(1,2), of e] unfolding assms(5) by blast
  have "(2::real) powi 0 \<le> real_of_int j" using assms(3) by simp
  then have t0: "0 \<le> t" using powi_le_imp_le [OF _ hi] by fastforce
  have "real_of_int j < real_of_int (2 ^ 53)" using assms(4) by linarith
  then have "real_of_int j < 2 powi 53" by (simp add: power_int_def)
  then have t52: "t \<le> 52" using powi_le_imp_le [OF lo] by fastforce
  have kt: "k = t - 52" using k t0 by simp
  define s where "s = nat (52 - t)"
  have ks: "- k = int s" using kt t52 by (simp add: s_def)
  define J where "J = j * 2 ^ s"
  have pk: "(2::real) powi (- k) = 2 ^ s" by (simp add: ks power_int_def)
  have "real_of_int (n * pow2 (e - k)) / real_of_int (d * pow2 (k - e))
        = real_of_int n / real_of_int d * 2 powi (e - k)" by (rule scaled_ratio)
  also have "\<dots> = (real_of_int n / real_of_int d * 2 powi e) * 2 powi (- k)"
  proof -
    have "(2::real) powi (e - k) = 2 powi (e + (- k))" by simp
    also have "\<dots> = 2 powi e * 2 powi (- k)" by (rule power_int_add) simp
    finally show ?thesis by (simp only: mult.assoc)
  qed
  also have "\<dots> = real_of_int J"
    by (simp only: assms(5) pk J_def) simp
  finally have rat: "real_of_int (n * pow2 (e - k)) / real_of_int (d * pow2 (k - e)) = real_of_int J" .
  have D0: "0 < d * pow2 (k - e)" using assms(2) by simp
  have "n * pow2 (e - k) = J * (d * pow2 (k - e))"
    by (rule div_int_eq [OF D0 rat])
  then have qJ: "q = J" unfolding q by (rule rne_div_exact [OF D0])
  have val: "real_of_int q * 2 powi k = real_of_int j"
  proof -
    have "(2::real) powi k * 2 ^ s = 1"
      using pk by (metis power_int_minus_mult mult.commute power_int_minus
          right_inverse zero_neq_numeral power_int_eq_0_iff)
    then show ?thesis by (simp add: qJ J_def mult.assoc mult.commute)
  qed
  have "real_of_int j < 2 powi 1024"
  proof -
    have "real_of_int j < 2 powi (t + 1)" by (rule hi)
    also have "\<dots> \<le> 2 powi 1024" using t52 by (intro power_int_increasing) simp_all
    finally show ?thesis .
  qed
  then have "real_of_int q * 2 powi k < 2 powi 1024" by (simp only: val)
  moreover have "k \<le> 1024" using kt t52 by simp
  ultimately have "\<not> 1024 < bitlen q + k" using no_overflow [OF q0] by simp
  then show ?thesis using r q0 val by auto
qed

lemma f64_of_int_exact:
  assumes "0 \<le> n" "n < 2 ^ 53"
  shows "\<exists>q k. f64_of_int n = Finite q k \<and> 0 \<le> q \<and> real_of_int q * 2 powi k = real_of_int n"
proof (cases "n = 0")
  case True
  then show ?thesis by (simp add: f64_of_int_def f64_round_def)
next
  case False
  then have n0: "0 < n" using assms(1) by simp
  have "real_of_int n / real_of_int 1 * 2 powi 0 = real_of_int n" by simp
  from f64_round_exact [OF n0 _ n0 assms(2) this]
  show ?thesis by (simp add: f64_of_int_def)
qed

lemma f64_to_int_floor:
  assumes "0 \<le> q" "real_of_int q * 2 powi k < 2 ^ 63"
  shows "f64_to_int plat (Finite q k) = \<lfloor>real_of_int q * 2 powi k\<rfloor>"
proof -
  define i where "i = \<lfloor>real_of_int q * 2 powi k\<rfloor>"
  have t: "trunc_quot (q * pow2 k) (pow2 (- k)) = i"
    unfolding i_def by (rule trunc_floor [OF assms(1)])
  have "0 \<le> real_of_int q * 2 powi k" using assms(1) by simp
  then have i0: "0 \<le> i" by (simp add: i_def)
  have "real_of_int q * 2 powi k < real_of_int (2 ^ 63)" using assms(2) by simp
  then have i1: "i < 2 ^ 63" unfolding i_def by (simp only: floor_less_iff)
  have "in_int64 i" using i0 i1 by (simp add: in_int64_def)
  then show ?thesis by (simp add: t Let_def i_def [symmetric])
qed

text \<open>The product of a value below 2^53 with a factor in [0, 1].\<close>

lemma f64_mul_unit:
  assumes "0 \<le> a" "real_of_int a * 2 powi ea = real_of_int n" "n < 2 ^ 53"
    and "0 \<le> m" "real_of_int m * 2 powi e \<le> 1"
  shows "\<exists>q k. f64_mul (Finite a ea) (Finite m e) = Finite q k \<and> 0 \<le> q
           \<and> \<bar>real_of_int q * 2 powi k - real_of_int n * (real_of_int m * 2 powi e)\<bar>
                \<le> real_of_int n * (real_of_int m * 2 powi e) * 2 powi (- 53) + 2 powi (- 1075)
           \<and> real_of_int q * 2 powi k < 2 ^ 63"
proof (cases "a * m = 0")
  case True
  then have z: "real_of_int n * (real_of_int m * 2 powi e) = 0"
    using assms(2) by (metis mult_eq_0_iff of_int_0 of_int_eq_iff mult_zero_left mult_zero_right)
  have "f64_mul (Finite a ea) (Finite m e) = Finite 0 0"
    using True by (simp add: f64_round_def)
  then show ?thesis unfolding z
    by (intro exI [of _ 0] exI [of _ "0::int"]) simp
next
  case False
  then have am: "0 < a * m" using assms(1,4) by (simp add: zero_less_mult_iff)
  define x where "x = real_of_int n * (real_of_int m * 2 powi e)"
  have xe: "real_of_int (a * m) / real_of_int 1 * 2 powi (ea + e) = x"
  proof -
    have "real_of_int (a * m) / real_of_int 1 * 2 powi (ea + e)
          = (real_of_int a * 2 powi ea) * (real_of_int m * 2 powi e)"
      by (simp add: power_int_add)
    then show ?thesis by (simp only: assms(2) x_def)
  qed
  have n0: "0 \<le> real_of_int n" using assms(1,2)
    by (metis mult_nonneg_nonneg of_int_0_le_iff zero_le_numeral zero_le_power_int)
  have p0: "0 \<le> real_of_int m * 2 powi e" using assms(4) by simp
  have x0: "0 \<le> x" unfolding x_def using n0 p0 by simp
  have xn: "x \<le> real_of_int n" unfolding x_def using n0 assms(5)
    by (metis mult_left_le)
  have nb: "real_of_int n < 2 powi 53"
  proof -
    have "real_of_int n < real_of_int (2 ^ 53)" using assms(3) by linarith
    then show ?thesis by (simp add: power_int_def)
  qed
  have xb: "x < 2 powi 53" using xn nb by linarith
  obtain q k where
    r: "f64_round (a * m) 1 (ea + e) = Finite q k" and q0: "0 \<le> q" and
    err: "\<bar>real_of_int q * 2 powi k - x\<bar> \<le> x * 2 powi (- 53) + 2 powi (- 1075)"
    using f64_round_err [OF am _ _ _, of 1 "ea + e" 53] xb unfolding xe by auto
  have s1: "x * 2 powi (- 53) \<le> x"
    using x0 powi_le_one [of "- 53"] by (metis mult_left_le order_refl zero_le_numeral
        neg_numeral_le_zero mult.commute mult_right_le_one_le zero_le_power_int)
  have s2: "(2::real) powi (- 1075) \<le> 1" by (rule powi_le_one) simp
  have "real_of_int q * 2 powi k \<le> 2 * x + 1" using err s1 s2 by linarith
  also have "\<dots> < 2 * 2 powi 53 + 1" using xb by simp
  also have "\<dots> < 2 ^ 63" by (simp add: power_int_def)
  finally have big: "real_of_int q * 2 powi k < 2 ^ 63" .
  show ?thesis
    using r q0 err big unfolding x_def by auto
qed


section \<open>Percentile and the caller's slice\<close>

lemma Percentile_frame:
  "take (length h) (fst (Percentile plat h a p)) = h"
  by (simp add: Percentile_def make_slice_def copy_slice_def sort_Slice_def len_slice_def
      Let_def split: prod.splits)

section \<open>Claim C5\<close>

text \<open>
  C5. For every slice of durations and every \<open>p\<close>, \<open>Percentile\<close> leaves the caller's
  slice unchanged, the same elements in the same order: every array that existed
  before the call, the argument's among them, is the same after it, whatever the
  call does (the sort works on a fresh array). For the durations \<open>[300, 100, 200]\<close>
  ms, after \<open>Percentile(x, 0.5)\<close> the slice is as it was and \<open>x[0]\<close> is still 300 ms.
\<close>

theorem C5_Percentile_keeps_input:
  "take (length h) (fst (Percentile plat h durations p)) = h
   \<and> fst (Percentile plat [[ms 300, ms 100, ms 200]] 0 (f64_const 50 100)) ! 0
        = [ms 300, ms 100, ms 200]
   \<and> fst (Percentile plat [[ms 300, ms 100, ms 200]] 0 (f64_const 50 100)) ! 0 ! 0 = ms 300"
proof -
  have "take (length [[ms 300, ms 100, ms 200]])
          (fst (Percentile plat [[ms 300, ms 100, ms 200]] 0 (f64_const 50 100)))
        = [[ms 300, ms 100, ms 200]]"
    by (rule Percentile_frame)
  then have "take 1 (fst (Percentile plat [[ms 300, ms 100, ms 200]] 0 (f64_const 50 100))) ! 0
        = [ms 300, ms 100, ms 200]" by simp
  then have x: "fst (Percentile plat [[ms 300, ms 100, ms 200]] 0 (f64_const 50 100)) ! 0
        = [ms 300, ms 100, ms 200]" by simp
  show ?thesis
    by (intro conjI) (simp_all add: Percentile_frame x)
qed

section \<open>The counters of the insert path\<close>

lemma consumeBatches_counts:
  "\<exists>s'. consumeBatches repo bs (i, e, s)
     = (i + events_inserted (insert_outcomes repo bs s),
        e + batches_failed (insert_outcomes repo bs s), s')"
proof (induction bs arbitrary: i e s)
  case Nil
  show ?case by (simp add: events_inserted_def batches_failed_def)
next
  case (Cons b bs)
  obtain err s1 where c: "InsertBatch repo s b = (err, s1)" by (cases "InsertBatch repo s b")
  show ?case
  proof (cases err)
    case None
    with c Cons.IH [of "i + int (length b)" e s1] show ?thesis
      by (auto simp: events_inserted_def batches_failed_def)
  next
    case (Some x)
    with c Cons.IH [of i "e + 1" s1] show ?thesis
      by (auto simp: events_inserted_def batches_failed_def)
  qed
qed

lemma Generate_returns:
  assumes "1 \<le> bsz"
  shows "\<exists>bs g'. Generate addDate ds (New n bsz) = Returns (bs, g')"
proof (cases "0 \<le> n")
  case True
  then show ?thesis
    using Generate_loop_sizes [of "New n bsz" addDate ds] assms
    by (auto simp: Generate_def New_def)
next
  case False
  then show ?thesis
    by (simp add: Generate_def New_def Generate_loop.simps)
qed

lemma parallelInsert_counts:
  assumes "parallelInsert cl addDate ds sched r repo s cnt = Returns (i, e, s')"
  shows "i = events_inserted (insert_calls addDate ds sched r repo s cnt)
       \<and> e = batches_failed (insert_calls addDate ds sched r repo s cnt)"
proof (cases "Workers r \<le> 0")
  case True
  then show ?thesis
    using assms
    by (auto simp: parallelInsert_def insert_calls_def events_inserted_def batches_failed_def
        split: if_splits outcome.splits)
next
  case False
  then obtain bs g where g: "Generate addDate ds (New cnt (BatchSize r)) = Returns (bs, g)"
    and c: "consumeBatches repo (sched bs) (0, 0, s) = (i, e, s')"
    using assms by (auto simp: parallelInsert_def split: if_splits outcome.splits)
  from consumeBatches_counts [of repo "sched bs" 0 0 s] c
  show ?thesis using False by (auto simp: insert_calls_def g batches_of_def)
qed

lemma parallelInsert_returns:
  assumes "1 \<le> BatchSize r" "0 \<le> Workers r" "Workers r * 2 \<le> cl" "cl < 2 ^ 63"
  shows "\<exists>i e s'. parallelInsert cl addDate ds sched r repo s cnt = Returns (i, e, s')"
proof -
  have w: "\<not> (wrap64 (Workers r * 2) < 0 \<or> cl < wrap64 (Workers r * 2))"
  proof -
    have "0 \<le> Workers r * 2" "Workers r * 2 < 2 ^ 63" using assms by simp_all
    then have "wrap64 (Workers r * 2) = Workers r * 2"
      by (simp add: wrap64_def mod_pos_pos_trivial)
    then show ?thesis using assms by simp
  qed
  obtain bs g where g: "Generate addDate ds (New cnt (BatchSize r)) = Returns (bs, g)"
    using Generate_returns [OF assms(1)] by blast
  show ?thesis
    using w g by (cases "consumeBatches repo (sched bs) (0, 0, s)")
      (auto simp: parallelInsert_def)
qed

section \<open>Claim C8\<close>

text \<open>
  C8. \<open>Preload\<close> returns an error if and only if at least one batch errored and no
  event was inserted; whenever at least one event was inserted it returns \<open>nil\<close>,
  however many batches failed. This holds of every call that returns, and the call
  returns whenever the batch size is at least 1 and at most \<open>2 ^ 31\<close>, the number of
  workers is not negative and the channel of twice as many batches is one the runtime
  allocates.
\<close>

theorem C8_Preload_error:
  "(Preload cl addDate ds sched r repo s = Returns (res, s') \<longrightarrow>
      ((res \<noteq> None) =
         (0 < batches_failed (preload_calls addDate ds sched r repo s)
          \<and> events_inserted (preload_calls addDate ds sched r repo s) = 0))
      \<and> (0 < events_inserted (preload_calls addDate ds sched r repo s) \<longrightarrow> res = None))
   \<and> (1 \<le> BatchSize r \<and> BatchSize r \<le> 2 ^ 31 \<and> 0 \<le> Workers r
        \<and> Workers r * 2 \<le> cl \<and> cl < 2 ^ 63 \<longrightarrow>
        (\<exists>res s'. Preload cl addDate ds sched r repo s = Returns (res, s')))"
proof (intro conjI impI)
  assume p: "Preload cl addDate ds sched r repo s = Returns (res, s')"
  show a: "(res \<noteq> None) =
         (0 < batches_failed (preload_calls addDate ds sched r repo s)
          \<and> events_inserted (preload_calls addDate ds sched r repo s) = 0)"
  proof (cases "PreloadCount r \<le> 0")
    case True
    then show ?thesis using p
      by (simp add: Preload_def preload_calls_def batches_failed_def)
  next
    case False
    then obtain i e where
      pi: "parallelInsert cl addDate ds sched r repo s (PreloadCount r) = Returns (i, e, s')"
      and res: "res = (if e > 0 \<and> i = 0
          then Some (''preload failed: all '' @ fmt_d e @ '' batches errored'') else None)"
      using p by (auto simp: Preload_def split: outcome.splits if_splits)
    from parallelInsert_counts [OF pi] res False show ?thesis
      by (simp add: preload_calls_def)
  qed
  show "res = None" if "0 < events_inserted (preload_calls addDate ds sched r repo s)"
    using a that by auto
next
  assume "1 \<le> BatchSize r \<and> BatchSize r \<le> 2 ^ 31 \<and> 0 \<le> Workers r
        \<and> Workers r * 2 \<le> cl \<and> cl < 2 ^ 63"
  then have h: "1 \<le> BatchSize r" "0 \<le> Workers r" "Workers r * 2 \<le> cl" "cl < 2 ^ 63"
    by simp_all
  from parallelInsert_returns [OF h, of addDate ds sched repo s "PreloadCount r"]
  obtain i e s' where
    "parallelInsert cl addDate ds sched r repo s (PreloadCount r) = Returns (i, e, s')"
    by blast
  then show "\<exists>res s'. Preload cl addDate ds sched r repo s = Returns (res, s')"
    by (simp add: Preload_def)
qed


lemma preload_calls_all_fail:
  "map snd (preload_calls addDate24 (\<lambda>k. draw0) id test_runner (mockRepository (\<lambda>n. True)) 0)
     = [True, True, True]"
  by (simp add: preload_calls_def insert_calls_def test_runner_def Generate_def New_def
      Generate_loop.simps batches_of_def make_batch_def Let_def mockRepository_def)

lemma preload_calls_every_2nd:
  "map (\<lambda>c. (length (fst c), snd c))
     (preload_calls addDate24 (\<lambda>k. draw0) id test_runner (mockRepository every_2nd) 0)
     = [(10, False), (10, True), (10, False)]"
  by (simp add: preload_calls_def insert_calls_def test_runner_def Generate_def New_def
      Generate_loop.simps batches_of_def make_batch_def Let_def mockRepository_def every_2nd_def)

lemma events_inserted_map:
  "events_inserted cs = (\<Sum>c\<leftarrow>map (\<lambda>c. (length (fst c), snd c)) cs. if snd c then 0 else int (fst c))"
  by (induction cs) (simp_all add: events_inserted_def)

lemma batches_failed_map: "batches_failed cs = int (length (filter id (map snd cs)))"
  by (induction cs) (simp_all add: batches_failed_def)

lemma events_inserted_all_failed:
  "\<forall>b \<in> set (map snd cs). b \<Longrightarrow> events_inserted cs = 0"
  by (induction cs) (auto simp: events_inserted_def)

theorem C8_Preload_error_witness:
  "(1 \<le> BatchSize test_runner \<and> BatchSize test_runner \<le> 2 ^ 31 \<and> 0 \<le> Workers test_runner
      \<and> Workers test_runner * 2 \<le> chan_limit_amd64 \<and> chan_limit_amd64 < 2 ^ 63)
   \<and> (\<exists>res s'. Preload chan_limit_amd64 addDate24 (\<lambda>k. draw0) id test_runner (mockRepository (\<lambda>n. True)) 0
                    = Returns (res, s') \<and> res \<noteq> None)
   \<and> (\<exists>s'. Preload chan_limit_amd64 addDate24 (\<lambda>k. draw0) id test_runner (mockRepository every_2nd) 0
                    = Returns (None, s'))"
proof -
  have cfg: "1 \<le> BatchSize test_runner \<and> BatchSize test_runner \<le> 2 ^ 31 \<and> 0 \<le> Workers test_runner
      \<and> Workers test_runner * 2 \<le> chan_limit_amd64 \<and> chan_limit_amd64 < 2 ^ 63"
    by (simp add: test_runner_def chan_limit_amd64_def)
  let ?A = "preload_calls addDate24 (\<lambda>k. draw0) id test_runner (mockRepository (\<lambda>n. True)) 0"
  let ?B = "preload_calls addDate24 (\<lambda>k. draw0) id test_runner (mockRepository every_2nd) 0"
  have fa: "batches_failed ?A = 3"
    by (simp add: batches_failed_map preload_calls_all_fail)
  have ia: "events_inserted ?A = 0"
    by (rule events_inserted_all_failed) (simp add: preload_calls_all_fail)
  have ib: "events_inserted ?B = 20"
    by (simp add: events_inserted_map preload_calls_every_2nd)
  note ta = C8_Preload_error [where cl = chan_limit_amd64 and addDate = addDate24
      and ds = "\<lambda>k. draw0" and sched = id and r = test_runner
      and repo = "mockRepository (\<lambda>n. True)" and s = 0]
  note tb = C8_Preload_error [where cl = chan_limit_amd64 and addDate = addDate24
      and ds = "\<lambda>k. draw0" and sched = id and r = test_runner
      and repo = "mockRepository every_2nd" and s = 0]
  obtain res s' where
    ra: "Preload chan_limit_amd64 addDate24 (\<lambda>k. draw0) id test_runner (mockRepository (\<lambda>n. True)) 0
           = Returns (res, s')"
    using ta cfg by blast
  have na: "res \<noteq> None"
    using ta [of res s'] ra fa ia by simp
  obtain res2 s2 where
    rb: "Preload chan_limit_amd64 addDate24 (\<lambda>k. draw0) id test_runner (mockRepository every_2nd) 0
           = Returns (res2, s2)"
    using tb cfg by blast
  have nb: "res2 = None"
    using tb [of res2 s2] rb ib by simp
  have A: "\<exists>res s'. Preload chan_limit_amd64 addDate24 (\<lambda>k. draw0) id test_runner (mockRepository (\<lambda>n. True)) 0
                    = Returns (res, s') \<and> res \<noteq> None"
    using ra na by blast
  have B: "\<exists>s'. Preload chan_limit_amd64 addDate24 (\<lambda>k. draw0) id test_runner (mockRepository every_2nd) 0
                    = Returns (None, s')"
    using rb nb by blast
  show ?thesis by (intro conjI A B) (use cfg in simp_all)
qed

section \<open>The value of Percentile\<close>

lemma Percentile_value:
  assumes "a < length h" "h ! a = xs" "xs \<noteq> []"
  shows "Percentile plat h a p =
          (h @ [sort xs],
           let index = f64_to_int plat (f64_mul (f64_of_int (int (length xs))) p);
               index = (if index \<ge> int (length xs) then int (length xs) - 1 else index)
           in if index < 0 then Panics else Returns (sort xs ! nat index))"
  using assms
  by (simp add: Percentile_def make_slice_def copy_slice_def sort_Slice_def len_slice_def
      Let_def nth_append)

lemma Percentile_unit:
  assumes "a < length h" "h ! a = xs" "xs \<noteq> []" "length xs < 2 ^ 53"
    and "0 \<le> m" "real_of_int m * 2 powi e \<le> 1"
  shows "snd (Percentile plat h a (Finite m e))
           = Returns (sort xs ! min (nat \<lfloor>valof (f64_mul (f64_of_int (int (length xs))) (Finite m e))\<rfloor>)
                                    (length xs - 1))"
    and "\<bar>valof (f64_mul (f64_of_int (int (length xs))) (Finite m e))
            - real (length xs) * valof (Finite m e)\<bar>
          \<le> real (length xs) * valof (Finite m e) * 2 powi (- 53) + 2 powi (- 1075)"
proof -
  define n where "n = int (length xs)"
  have n53: "n < 2 ^ 53" using assms(4) by (simp add: n_def)
  obtain a' ea where fa: "f64_of_int n = Finite a' ea" and a0: "0 \<le> a'"
    and va: "real_of_int a' * 2 powi ea = real_of_int n"
    using f64_of_int_exact [of n] n53 by (auto simp: n_def)
  obtain q k where
    mul: "f64_mul (Finite a' ea) (Finite m e) = Finite q k" and q0: "0 \<le> q" and
    err: "\<bar>real_of_int q * 2 powi k - real_of_int n * (real_of_int m * 2 powi e)\<bar>
           \<le> real_of_int n * (real_of_int m * 2 powi e) * 2 powi (- 53) + 2 powi (- 1075)" and
    big: "real_of_int q * 2 powi k < 2 ^ 63"
    using f64_mul_unit [OF a0 va n53 assms(5,6)] by blast
  define i where "i = \<lfloor>real_of_int q * 2 powi k\<rfloor>"
  have conv: "f64_to_int plat (Finite q k) = i"
    unfolding i_def by (rule f64_to_int_floor [OF q0 big])
  have "0 \<le> real_of_int q * 2 powi k" using q0 by simp
  then have i0: "0 \<le> i" by (simp add: i_def)
  have len: "0 < length xs" using assms(3) by simp
  have sel: "nat (if int (length xs) \<le> i then int (length xs) - 1 else i)
             = min (nat i) (length xs - 1)"
    using i0 len by (auto simp: min_def nat_le_iff)
  have prod: "f64_mul (f64_of_int (int (length xs))) (Finite m e) = Finite q k"
    by (simp only: n_def [symmetric] fa mul)
  have idx: "f64_to_int plat (f64_mul (f64_of_int (int (length xs))) (Finite m e)) = i"
    by (simp only: prod conv)
  have v: "valof (f64_mul (f64_of_int (int (length xs))) (Finite m e)) = real_of_int q * 2 powi k"
    by (simp only: prod valof.simps)
  have "Percentile plat h a (Finite m e) =
          (h @ [sort xs],
           let index = f64_to_int plat (f64_mul (f64_of_int (int (length xs))) (Finite m e));
               index = (if index \<ge> int (length xs) then int (length xs) - 1 else index)
           in if index < 0 then Panics else Returns (sort xs ! nat index))"
    by (rule Percentile_value [OF assms(1-3)])
  then have "snd (Percentile plat h a (Finite m e))
        = Returns (sort xs ! nat (if int (length xs) \<le> i then int (length xs) - 1 else i))"
    using i0 len by (simp add: idx Let_def)
  then show "snd (Percentile plat h a (Finite m e))
           = Returns (sort xs ! min (nat \<lfloor>valof (f64_mul (f64_of_int (int (length xs))) (Finite m e))\<rfloor>)
                                    (length xs - 1))"
    by (simp only: v i_def [symmetric] sel)
  have "real (length xs) = real_of_int n" by (simp add: n_def)
  then show "\<bar>valof (f64_mul (f64_of_int (int (length xs))) (Finite m e))
            - real (length xs) * valof (Finite m e)\<bar>
          \<le> real (length xs) * valof (Finite m e) * 2 powi (- 53) + 2 powi (- 1075)"
    using err by (simp only: v valof.simps)
qed


lemma sort_ms_upto: "sort (map ms [1..100]) = map ms [1..100]"
proof -
  have "mono_on (set [1..100]) ms"
    by (rule mono_onI) (simp add: ms_def millisecond_ns_def)
  then have "sorted (map ms [1..100])" by (intro sorted_map_mono) simp_all
  then show ?thesis by (rule sorted_sort_id)
qed

lemma index_1_100:
  "f64_to_int plat (f64_mul (f64_of_int 100) (f64_const 50 100)) = 50"
  "f64_to_int plat (f64_mul (f64_of_int 100) (f64_const 95 100)) = 95"
  "f64_to_int plat (f64_mul (f64_of_int 100) (f64_const 99 100)) = 99"
  by code_simp+

lemma Percentile_1_100:
  "snd (Percentile plat [map ms [1..100]] 0 (f64_const 50 100)) = Returns (ms 51)"
  "snd (Percentile plat [map ms [1..100]] 0 (f64_const 95 100)) = Returns (ms 96)"
  "snd (Percentile plat [map ms [1..100]] 0 (f64_const 99 100)) = Returns (ms 100)"
proof -
  have v: "Percentile plat [map ms [1..100]] 0 p =
          ([map ms [1..100]] @ [sort (map ms [1..100])],
           let index = f64_to_int plat (f64_mul (f64_of_int (int (length (map ms [1..100])))) p);
               index = (if index \<ge> int (length (map ms [1..100]))
                        then int (length (map ms [1..100])) - 1 else index)
           in if index < 0 then Panics else Returns (sort (map ms [1..100]) ! nat index))" for p
    by (rule Percentile_value) simp_all
  have l: "int (length (map ms [1..100])) = 100" by simp
  have n: "map ms [1..100] ! 50 = ms 51" "map ms [1..100] ! 95 = ms 96"
    "map ms [1..100] ! 99 = ms 100"
    by (simp_all add: nth_upto)
  show "snd (Percentile plat [map ms [1..100]] 0 (f64_const 50 100)) = Returns (ms 51)"
    unfolding v l sort_ms_upto by (simp add: index_1_100 n del: upto.simps)
  show "snd (Percentile plat [map ms [1..100]] 0 (f64_const 95 100)) = Returns (ms 96)"
    unfolding v l sort_ms_upto by (simp add: index_1_100 n del: upto.simps)
  show "snd (Percentile plat [map ms [1..100]] 0 (f64_const 99 100)) = Returns (ms 100)"
    unfolding v l sort_ms_upto by (simp add: index_1_100 n del: upto.simps)
qed

section \<open>Claim C4\<close>

text \<open>
  C4, as amended. For every non-empty slice of durations (of a length below \<open>2 ^ 53\<close>)
  and every float64 \<open>p\<close> in \<open>[0, 1]\<close>, \<open>Percentile\<close> returns the element of the ascending
  sort at the index \<open>floor(len * p)\<close>, clamped to \<open>len - 1\<close> (nearest rank, no
  interpolation), where \<open>len * p\<close> is the float64 product the code computes, rounded to
  the nearest float64 with ties to even: it is within the relative error \<open>2 ^ -53\<close> (and
  \<open>2 ^ -1075\<close>) of the exact product, and its floor is not always the floor of the
  exact product. For the durations 1 ms to 100 ms the results at the constants 0.50,
  0.95 and 0.99 are 51 ms, 96 ms and 100 ms.
\<close>

theorem C4_Percentile_nearest_rank:
  assumes "durations < length h" "h ! durations = xs" "xs \<noteq> []" "length xs < 2 ^ 53"
    and "0 \<le> m" "real_of_int m * 2 powi e \<le> 1"
  shows "snd (Percentile plat h durations (Finite m e))
           = Returns (sort xs ! min (nat \<lfloor>valof (f64_mul (f64_of_int (int (length xs))) (Finite m e))\<rfloor>)
                                    (length xs - 1))
       \<and> \<bar>valof (f64_mul (f64_of_int (int (length xs))) (Finite m e))
            - real (length xs) * valof (Finite m e)\<bar>
          \<le> real (length xs) * valof (Finite m e) * 2 powi (- 53) + 2 powi (- 1075)
       \<and> snd (Percentile plat [map ms [1..100]] 0 (f64_const 50 100)) = Returns (ms 51)
       \<and> snd (Percentile plat [map ms [1..100]] 0 (f64_const 95 100)) = Returns (ms 96)
       \<and> snd (Percentile plat [map ms [1..100]] 0 (f64_const 99 100)) = Returns (ms 100)"
  by (intro conjI Percentile_unit [OF assms] Percentile_1_100)

lemma half_of_three: "f64_mul (f64_of_int 3) (Finite 1 (- 1)) = Finite 6755399441055744 (- 52)"
  by code_simp

theorem C4_Percentile_nearest_rank_witness:
  "(0::nat) < length [[ms 300, ms 100, ms 200]] \<and> [ms 300, ms 100, ms 200] \<noteq> []
   \<and> length [ms 300, ms 100, ms 200] < 2 ^ 53 \<and> (0::int) \<le> 1 \<and> real_of_int 1 * 2 powi (- 1) \<le> 1
   \<and> snd (Percentile plat_amd64 [[ms 300, ms 100, ms 200]] 0 (Finite 1 (- 1))) = Returns (ms 200)"
proof -
  have h: "(0::nat) < length [[ms 300, ms 100, ms 200]]" "[[ms 300, ms 100, ms 200]] ! 0 = [ms 300, ms 100, ms 200]"
    "[ms 300, ms 100, ms 200] \<noteq> []" "length [ms 300, ms 100, ms 200] < 2 ^ 53"
    "(0::int) \<le> 1" "real_of_int 1 * 2 powi (- 1) \<le> 1"
    by simp_all
  have f: "\<lfloor>valof (f64_mul (f64_of_int (int (length [ms 300, ms 100, ms 200]))) (Finite 1 (- 1)))\<rfloor> = 1"
    by (simp add: half_of_three power_int_minus)
  have s: "sort [ms 300, ms 100, ms 200] = [ms 100, ms 200, ms 300]"
    by (simp add: ms_def millisecond_ns_def)
  have "snd (Percentile plat_amd64 [[ms 300, ms 100, ms 200]] 0 (Finite 1 (- 1)))
          = Returns (sort [ms 300, ms 100, ms 200]
               ! min (nat \<lfloor>valof (f64_mul (f64_of_int (int (length [ms 300, ms 100, ms 200]))) (Finite 1 (- 1)))\<rfloor>)
                     (length [ms 300, ms 100, ms 200] - 1))"
    using C4_Percentile_nearest_rank [OF h, of plat_amd64] by blast
  then have "snd (Percentile plat_amd64 [[ms 300, ms 100, ms 200]] 0 (Finite 1 (- 1))) = Returns (ms 200)"
    by (simp only: f s) simp
  then show ?thesis using h by blast
qed

lemma third_code: "snd (Percentile plat_amd64 [[ms 100, ms 200, ms 300]] 0 (Finite 6004799503160661 (- 54)))
   = Returns (ms 200)"
  by code_simp

lemma third_floor:
  "\<lfloor>real (length [ms 100, ms 200, ms 300]) * valof (Finite 6004799503160661 (- 54))\<rfloor> = 0"
  by (simp add: power_int_minus)

lemma third_unit: "0 \<le> valof (Finite 6004799503160661 (- 54))" "valof (Finite 6004799503160661 (- 54)) \<le> 1"
  by (simp_all add: power_int_minus)

text \<open>
  C4 as first stated takes the floor of the exact product \<open>len * p\<close>. At three
  durations and \<open>p = 0.3333333333333333\<close> (the float64 \<open>6004799503160661 * 2 ^ -54\<close>, in
  \<open>[0, 1]\<close>) the exact product is below 1 and its floor selects index 0, 100 ms, while
  the float64 product is exactly 1 and \<open>Percentile\<close> returns the element at index 1,
  200 ms.
\<close>

theorem C4_real_floor_counterexample:
  "0 \<le> valof (Finite 6004799503160661 (- 54)) \<and> valof (Finite 6004799503160661 (- 54)) \<le> 1
   \<and> snd (Percentile plat_amd64 [[ms 100, ms 200, ms 300]] 0 (Finite 6004799503160661 (- 54)))
        = Returns (ms 200)
   \<and> sort [ms 100, ms 200, ms 300]
        ! min (nat \<lfloor>real (length [ms 100, ms 200, ms 300]) * valof (Finite 6004799503160661 (- 54))\<rfloor>)
              (length [ms 100, ms 200, ms 300] - 1) = ms 100
   \<and> snd (Percentile plat_amd64 [[ms 100, ms 200, ms 300]] 0 (Finite 6004799503160661 (- 54)))
        \<noteq> Returns (sort [ms 100, ms 200, ms 300]
             ! min (nat \<lfloor>real (length [ms 100, ms 200, ms 300]) * valof (Finite 6004799503160661 (- 54))\<rfloor>)
                   (length [ms 100, ms 200, ms 300] - 1))"
proof -
  have s: "sort [ms 100, ms 200, ms 300] = [ms 100, ms 200, ms 300]"
    by (simp add: ms_def millisecond_ns_def)
  have a: "sort [ms 100, ms 200, ms 300]
        ! min (nat \<lfloor>real (length [ms 100, ms 200, ms 300]) * valof (Finite 6004799503160661 (- 54))\<rfloor>)
              (length [ms 100, ms 200, ms 300] - 1) = ms 100"
    unfolding third_floor s by simp
  have ne: "ms 200 \<noteq> ms 100" by (simp add: ms_def millisecond_ns_def)
  show ?thesis
    unfolding a third_code using third_unit ne by simp
qed

section \<open>Percentile at the top of the range\<close>

lemma foldl_max: "foldl (\<lambda>result d. if d > result then d else result) (x::int) xs = Max (set (x # xs))"
proof (induction xs arbitrary: x)
  case Nil
  show ?case by simp
next
  case (Cons y ys)
  have "Max (set ((if x < y then y else x) # ys)) = Max (set (x # y # ys))"
  proof (cases ys)
    case Nil
    then show ?thesis by (simp add: max_def)
  next
    case (Cons z zs)
    have "Max (insert x (insert y (set ys))) = max x (max y (Max (set ys)))"
      using Cons by simp
    moreover have "Max (insert (if x < y then y else x) (set ys)) = max (if x < y then y else x) (Max (set ys))"
      using Cons by simp
    ultimately show ?thesis by (simp add: max_def)
  qed
  then show ?case using Cons.IH [of "if x < y then y else x"] by simp
qed

lemma MaxDuration_Max: "xs \<noteq> [] \<Longrightarrow> MaxDuration xs = Max (set xs)"
proof -
  assume ne: "xs \<noteq> []"
  then obtain x ys where xs: "xs = x # ys" by (cases xs) auto
  show ?thesis
    by (simp add: MaxDuration_def xs foldl_max del: foldl_Cons)
qed

lemma last_sort_Max:
  assumes "(xs::int list) \<noteq> []"
  shows "sort xs ! (length xs - 1) = Max (set xs)"
proof -
  have ne: "sort xs \<noteq> []" using assms by (metis length_sort length_0_conv)
  have "sort xs ! (length xs - 1) = last (sort xs)"
    using ne by (simp add: last_conv_nth)
  also have "\<dots> = Max (set (sort xs))"
  proof (rule sym, rule Max_eqI)
    show "finite (set (sort xs))" by simp
    show "last (sort xs) \<in> set (sort xs)" using ne by (rule last_in_set)
    fix y assume "y \<in> set (sort xs)"
    then have "\<exists>i<length (sort xs). sort xs ! i = y"
      by (simp only: in_set_conv_nth)
    then obtain i where i: "i < length (sort xs)" "sort xs ! i = y" by blast
    have "sort xs ! i \<le> sort xs ! (length (sort xs) - 1)"
      using i(1) by (intro sorted_nth_mono) simp_all
    then show "y \<le> last (sort xs)" using i ne by (simp add: last_conv_nth)
  qed
  finally show ?thesis by simp
qed

lemma Percentile_clamped:
  assumes "a < length h" "h ! a = xs" "xs \<noteq> []"
    and "int (length xs) \<le> f64_to_int plat (f64_mul (f64_of_int (int (length xs))) p)"
  shows "snd (Percentile plat h a p) = Returns (MaxDuration xs)"
proof -
  have len: "0 < length xs" using assms(3) by simp
  have "snd (Percentile plat h a p) = Returns (sort xs ! (length xs - 1))"
    using assms(4) len
    by (simp add: Percentile_value [OF assms(1-3)] Let_def nat_diff_distrib')
  then show ?thesis
    by (simp only: last_sort_Max [OF assms(3)] MaxDuration_Max [OF assms(3)])
qed

lemma prod_value:
  "real_of_int (a * b) / real_of_int 1 * 2 powi (ea + eb)
     = (real_of_int a * 2 powi ea) * (real_of_int b * 2 powi eb)"
  by (simp add: power_int_add)

lemma index_at_one:
  assumes "0 < n" "n < 2 ^ 53"
  shows "f64_to_int plat (f64_mul (f64_of_int n) (f64_const 1 1)) = n"
proof -
  obtain a ea where fa: "f64_of_int n = Finite a ea" and a0: "0 \<le> a"
    and va: "real_of_int a * 2 powi ea = real_of_int n"
    using f64_of_int_exact [of n] assms by auto
  have one: "f64_const 1 1 = Finite 4503599627370496 (- 52)" by code_simp
  have v1: "real_of_int 4503599627370496 * 2 powi (- 52) = 1"
    by (simp add: power_int_minus)
  have apos: "0 < a"
  proof (rule ccontr)
    assume "\<not> 0 < a"
    then have "a = 0" using a0 by simp
    then have "real_of_int n = 0" using va by simp
    then show False using assms(1) by simp
  qed
  have x: "real_of_int (a * 4503599627370496) / real_of_int 1 * 2 powi (ea + (- 52)) = real_of_int n"
  proof -
    have "real_of_int (a * 4503599627370496) / real_of_int 1 * 2 powi (ea + (- 52))
          = (real_of_int a * 2 powi ea) * (real_of_int 4503599627370496 * 2 powi (- 52))"
      by (rule prod_value)
    then show ?thesis by (simp only: va v1 mult_1_right)
  qed
  have "0 < a * 4503599627370496" using apos by simp
  from f64_round_exact [OF this _ assms(1,2) x]
  obtain q k where r: "f64_round (a * 4503599627370496) 1 (ea + (- 52)) = Finite q k"
    and q0: "0 \<le> q" and v: "real_of_int q * 2 powi k = real_of_int n"
    by auto
  have m: "f64_mul (f64_of_int n) (f64_const 1 1) = Finite q k"
    by (simp only: fa one f64_mul.simps r)
  have "real_of_int n < 2 ^ 63"
  proof -
    have "n < 2 ^ 63" using assms(2) by simp
    then have "real_of_int n < real_of_int (2 ^ 63)" by linarith
    then show ?thesis by simp
  qed
  then have "real_of_int q * 2 powi k < 2 ^ 63" by (simp only: v)
  from f64_to_int_floor [OF q0 this, of plat]
  show ?thesis by (simp only: m v floor_of_int)
qed

section \<open>Claim C10\<close>

text \<open>
  C10. For every non-empty slice of durations (of a length below \<open>2 ^ 53\<close>, which
  float64 holds exactly), \<open>Percentile\<close> with \<open>p = 1.0\<close> returns the maximum of the
  slice, \<open>Percentile(x, 1.0) = MaxDuration(x)\<close>; and so does \<open>Percentile\<close> with any
  \<open>p\<close> whose computed index reaches or exceeds the length, since the index is clamped
  to \<open>len - 1\<close> of the ascending sort.
\<close>

theorem C10_Percentile_one_is_max:
  assumes "durations < length h" "h ! durations = xs" "xs \<noteq> []" "length xs < 2 ^ 53"
  shows "snd (Percentile plat h durations (f64_const 1 1)) = Returns (MaxDuration xs)
       \<and> (\<forall>p. int (length xs) \<le> f64_to_int plat (f64_mul (f64_of_int (int (length xs))) p)
              \<longrightarrow> snd (Percentile plat h durations p) = Returns (MaxDuration xs))"
proof -
  have "0 < int (length xs)" using assms(3) by simp
  moreover have "int (length xs) < 2 ^ 53" using assms(4) by simp
  ultimately have "f64_to_int plat (f64_mul (f64_of_int (int (length xs))) (f64_const 1 1))
                   = int (length xs)"
    by (rule index_at_one)
  then have "snd (Percentile plat h durations (f64_const 1 1)) = Returns (MaxDuration xs)"
    by (intro Percentile_clamped [OF assms(1-3)]) simp
  then show ?thesis
    using Percentile_clamped [OF assms(1-3)] by blast
qed

lemma Max_3: "MaxDuration [ms 300, ms 100, ms 200] = ms 300"
  by (simp add: MaxDuration_def ms_def millisecond_ns_def)

theorem C10_Percentile_one_is_max_witness:
  "(0::nat) < length [[ms 300, ms 100, ms 200]] \<and> [ms 300, ms 100, ms 200] \<noteq> []
   \<and> length [ms 300, ms 100, ms 200] < 2 ^ 53
   \<and> snd (Percentile plat_amd64 [[ms 300, ms 100, ms 200]] 0 (f64_const 1 1)) = Returns (ms 300)
   \<and> int (length [ms 300, ms 100, ms 200])
        \<le> f64_to_int plat_amd64 (f64_mul (f64_of_int (int (length [ms 300, ms 100, ms 200]))) (Finite 3 0))
   \<and> snd (Percentile plat_amd64 [[ms 300, ms 100, ms 200]] 0 (Finite 3 0)) = Returns (ms 300)"
proof -
  have h: "(0::nat) < length [[ms 300, ms 100, ms 200]]"
    "[[ms 300, ms 100, ms 200]] ! 0 = [ms 300, ms 100, ms 200]"
    "[ms 300, ms 100, ms 200] \<noteq> []" "length [ms 300, ms 100, ms 200] < 2 ^ 53"
    by simp_all
  have i: "f64_to_int plat_amd64 (f64_mul (f64_of_int 3) (Finite 3 0)) = 9" by code_simp
  have g: "int (length [ms 300, ms 100, ms 200])
        \<le> f64_to_int plat_amd64 (f64_mul (f64_of_int (int (length [ms 300, ms 100, ms 200]))) (Finite 3 0))"
    by (simp add: i)
  note t = C10_Percentile_one_is_max [OF h, of plat_amd64]
  have a: "snd (Percentile plat_amd64 [[ms 300, ms 100, ms 200]] 0 (f64_const 1 1)) = Returns (ms 300)"
    using t by (simp only: Max_3)
  have b: "snd (Percentile plat_amd64 [[ms 300, ms 100, ms 200]] 0 (Finite 3 0)) = Returns (ms 300)"
    using t g unfolding Max_3 by blast
  show ?thesis using h a b g by blast
qed

section \<open>The query path\<close>

lemma warmup_calls:
  "warmup repo start end n (s, calls)
     = (fst (warmup repo start end n (s, [])), calls @ replicate n (WarmupCall, start, end))"
proof (induction n arbitrary: s calls)
  case 0
  show ?case by simp
next
  case (Suc n)
  obtain err d s' where g: "GetEventStats repo s start end = (err, d, s')"
    by (cases "GetEventStats repo s start end") auto
  show ?case
    using Suc.IH [of s' "calls @ [(WarmupCall, start, end)]"]
      Suc.IH [of s' "[(WarmupCall, start, end)]"]
    by (simp add: g replicate_append_same)
qed

lemma measure_loop_result:
  "\<exists>s'. measure_loop repo start end n (durations, errors, s, calls)
     = (durations @ succeeded (query_outcomes repo start end n s),
        errors + int (length (failed (query_outcomes repo start end n s))),
        s', calls @ replicate n (MeasuredCall, start, end))"
proof (induction n arbitrary: durations errors s calls)
  case 0
  show ?case by (simp add: succeeded_def failed_def)
next
  case (Suc n)
  obtain err d s1 where g: "GetEventStats repo s start end = (err, d, s1)"
    by (cases "GetEventStats repo s start end") auto
  show ?case
  proof (cases err)
    case None
    from Suc.IH [of "durations @ [d]" errors s1 "calls @ [(MeasuredCall, start, end)]"]
    show ?thesis by (auto simp: g None replicate_append_same succeeded_def failed_def)
  next
    case (Some e)
    from Suc.IH [of durations "errors + 1" s1 "calls @ [(MeasuredCall, start, end)]"]
    show ?thesis by (auto simp: g Some replicate_append_same succeeded_def failed_def)
  qed
qed

lemma length_query_outcomes: "length (query_outcomes repo start end n s) = n"
proof (induction n arbitrary: s)
  case 0 show ?case by simp
next
  case (Suc n)
  then show ?case by (cases "GetEventStats repo s start end") auto
qed

lemma measureQuery_result:
  "\<exists>s2. measureQuery r repo start end (warmup repo start end (nat (WarmupIterations r)) (s, calls))
     = (succeeded (measured_outcomes r repo start end s),
        int (length (failed (measured_outcomes r repo start end s))),
        s2, calls @ scenario_calls r start end)"
proof -
  define s1 where "s1 = fst (warmup repo start end (nat (WarmupIterations r)) (s, []))"
  have w: "warmup repo start end (nat (WarmupIterations r)) (s, calls)
           = (s1, calls @ replicate (nat (WarmupIterations r)) (WarmupCall, start, end))"
    unfolding s1_def by (rule warmup_calls)
  from measure_loop_result [of repo start "end" "nat (QueryIterations r)" "[]" 0 s1
      "calls @ replicate (nat (WarmupIterations r)) (WarmupCall, start, end)"]
  show ?thesis
    by (auto simp: measureQuery_def w measured_outcomes_def s1_def scenario_calls_def)
qed

lemma consts_unit:
  "f64_const 50 100 = Finite 4503599627370496 (- 53)"
  "f64_const 95 100 = Finite 8556839292003942 (- 53)"
  "f64_const 99 100 = Finite 8917127262193582 (- 53)"
  by code_simp+

lemma Percentile_returns:
  assumes "xs \<noteq> []" "length xs < 2 ^ 53" "0 < length h" "h ! 0 = xs"
    and "p \<in> {f64_const 50 100, f64_const 95 100, f64_const 99 100}"
  shows "\<exists>v. Percentile plat h 0 p = (h @ [sort xs], Returns v)"
proof -
  obtain m e where p: "p = Finite m e" and m0: "0 \<le> m" and m1: "real_of_int m * 2 powi e \<le> 1"
    using assms(5) by (auto simp: consts_unit power_int_minus)
  have "fst (Percentile plat h 0 p) = h @ [sort xs]"
    by (simp add: Percentile_value [OF assms(3,4,1)])
  moreover have "\<exists>v. snd (Percentile plat h 0 p) = Returns v"
    using Percentile_unit(1) [OF assms(3,4,1,2) m0 m1, of plat] p by blast
  ultimately show ?thesis by (metis prod.collapse)
qed


lemma length_succeeded: "length (succeeded (query_outcomes repo start end n s)) \<le> n"
proof -
  have "length (succeeded (query_outcomes repo start end n s))
        \<le> length (query_outcomes repo start end n s)"
    by (simp add: succeeded_def)
  then show ?thesis by (simp only: length_query_outcomes)
qed

lemma Percentile_snd_store:
  assumes "a < length h" "h ! a = xs" "xs \<noteq> []"
  shows "snd (Percentile plat h a p) = snd (Percentile plat [xs] 0 p)"
proof -
  have "0 < length [xs]" "[xs] ! 0 = xs" by simp_all
  from Percentile_value [OF this assms(3), of plat p] Percentile_value [OF assms, of plat p]
  show ?thesis by simp
qed

lemma runQuery_result:
  assumes "QueryIterations r < 2 ^ 53"
  shows "\<exists>qr s'. runQuery plat fmt_date r repo name start end (s, calls)
             = Returns (qr, s', calls @ scenario_calls r start end)
         \<and> qr_QueryName qr = name
         \<and> qr_Iterations qr = int (length (succeeded (measured_outcomes r repo start end s)))
         \<and> qr_ErrorCount qr = int (length (failed (measured_outcomes r repo start end s)))
         \<and> (if succeeded (measured_outcomes r repo start end s) = []
              then qr = \<lparr>qr_QueryName = name, qr_Iterations = 0, qr_AvgDuration = 0,
                         qr_MinDuration = 0, qr_MaxDuration = 0, qr_P50Duration = 0,
                         qr_P95Duration = 0, qr_P99Duration = 0,
                         qr_ErrorCount = int (length (failed (measured_outcomes r repo start end s))),
                         qr_DateRange = []\<rparr>
              else qr_AvgDuration qr = AvgDuration (succeeded (measured_outcomes r repo start end s))
                 \<and> qr_MinDuration qr = MinDuration (succeeded (measured_outcomes r repo start end s))
                 \<and> qr_MaxDuration qr = MaxDuration (succeeded (measured_outcomes r repo start end s))
                 \<and> snd (Percentile plat [succeeded (measured_outcomes r repo start end s)] 0 (f64_const 50 100))
                       = Returns (qr_P50Duration qr)
                 \<and> snd (Percentile plat [succeeded (measured_outcomes r repo start end s)] 0 (f64_const 95 100))
                       = Returns (qr_P95Duration qr)
                 \<and> snd (Percentile plat [succeeded (measured_outcomes r repo start end s)] 0 (f64_const 99 100))
                       = Returns (qr_P99Duration qr)
                 \<and> qr_DateRange qr = fmt_date start @ '' to '' @ fmt_date end)"
proof -
  define durs where "durs = succeeded (measured_outcomes r repo start end s)"
  define errs where "errs = int (length (failed (measured_outcomes r repo start end s)))"
  obtain s2 where
    mq: "measureQuery r repo start end (warmup repo start end (nat (WarmupIterations r)) (s, calls))
           = (durs, errs, s2, calls @ scenario_calls r start end)"
    using measureQuery_result [of r repo start "end" s calls] unfolding durs_def errs_def by blast
  show ?thesis
  proof (cases "durs = []")
    case True
    then show ?thesis
      unfolding durs_def [symmetric] errs_def [symmetric]
      by (simp add: runQuery_def Let_def mq)
  next
    case False
    have "length durs \<le> nat (QueryIterations r)"
      unfolding durs_def measured_outcomes_def by (rule length_succeeded)
    also have "\<dots> < 2 ^ 53" using assms by (simp add: nat_less_iff)
    finally have len: "length durs < 2 ^ 53" .
    obtain v50 where p50: "Percentile plat [durs] 0 (f64_const 50 100) = ([durs] @ [sort durs], Returns v50)"
      using Percentile_returns [OF False len, of "[durs]" "f64_const 50 100" plat] by auto
    obtain v95 where p95: "Percentile plat ([durs] @ [sort durs]) 0 (f64_const 95 100)
          = (([durs] @ [sort durs]) @ [sort durs], Returns v95)"
      using Percentile_returns [OF False len, of "[durs] @ [sort durs]" "f64_const 95 100" plat] by auto
    obtain v99 where p99: "Percentile plat (([durs] @ [sort durs]) @ [sort durs]) 0 (f64_const 99 100)
          = ((([durs] @ [sort durs]) @ [sort durs]) @ [sort durs], Returns v99)"
      using Percentile_returns [OF False len, of "([durs] @ [sort durs]) @ [sort durs]" "f64_const 99 100" plat]
      by auto
    have s95: "snd (Percentile plat [durs] 0 (f64_const 95 100)) = Returns v95"
      using Percentile_snd_store [of 0 "[durs] @ [sort durs]" durs plat "f64_const 95 100"] False p95
      by simp
    have s99: "snd (Percentile plat [durs] 0 (f64_const 99 100)) = Returns v99"
      using Percentile_snd_store [of 0 "([durs] @ [sort durs]) @ [sort durs]" durs plat "f64_const 99 100"]
        False p99 by simp
    have run: "runQuery plat fmt_date r repo name start end (s, calls)
          = Returns (\<lparr>qr_QueryName = name,
                      qr_Iterations = int (length durs),
                      qr_AvgDuration = AvgDuration durs,
                      qr_MinDuration = MinDuration durs,
                      qr_MaxDuration = MaxDuration durs,
                      qr_P50Duration = v50,
                      qr_P95Duration = v95,
                      qr_P99Duration = v99,
                      qr_ErrorCount = errs,
                      qr_DateRange = fmt_date start @ '' to '' @ fmt_date end\<rparr>,
                     s2, calls @ scenario_calls r start end)"
      using False p50 p95 p99 by (simp add: runQuery_def Let_def mq)
    show ?thesis
      unfolding durs_def [symmetric] errs_def [symmetric]
      using False p50 s95 s99 by (simp add: run)
  qed
qed


section \<open>Claim C7\<close>

text \<open>
  C7. For every scenario that \<open>runQuery\<close> executes (with a number of iterations
  below \<open>2 ^ 53\<close>), the call returns a result whose \<open>Iterations\<close> is the number of
  measured calls that succeeded and whose \<open>ErrorCount\<close> is the number of measured calls
  that failed, the two adding up to the number of measured calls; the latency fields
  are computed from the times of the calls that succeeded and of no other call; and
  when no measured call succeeded, every latency field is zero and only the name and
  the error count are set.
\<close>

theorem C7_runQuery_counts:
  assumes "QueryIterations r < 2 ^ 53"
  shows "\<exists>qr s' calls'. runQuery plat fmt_date r repo name start end (s, calls) = Returns (qr, s', calls')
         \<and> qr_QueryName qr = name
         \<and> qr_Iterations qr = int (length (succeeded (measured_outcomes r repo start end s)))
         \<and> qr_ErrorCount qr = int (length (failed (measured_outcomes r repo start end s)))
         \<and> qr_Iterations qr + qr_ErrorCount qr = int (nat (QueryIterations r))
         \<and> (if succeeded (measured_outcomes r repo start end s) = []
              then qr = \<lparr>qr_QueryName = name, qr_Iterations = 0, qr_AvgDuration = 0,
                         qr_MinDuration = 0, qr_MaxDuration = 0, qr_P50Duration = 0,
                         qr_P95Duration = 0, qr_P99Duration = 0,
                         qr_ErrorCount = int (length (failed (measured_outcomes r repo start end s))),
                         qr_DateRange = []\<rparr>
              else qr_AvgDuration qr = AvgDuration (succeeded (measured_outcomes r repo start end s))
                 \<and> qr_MinDuration qr = MinDuration (succeeded (measured_outcomes r repo start end s))
                 \<and> qr_MaxDuration qr = MaxDuration (succeeded (measured_outcomes r repo start end s))
                 \<and> snd (Percentile plat [succeeded (measured_outcomes r repo start end s)] 0 (f64_const 50 100))
                       = Returns (qr_P50Duration qr)
                 \<and> snd (Percentile plat [succeeded (measured_outcomes r repo start end s)] 0 (f64_const 95 100))
                       = Returns (qr_P95Duration qr)
                 \<and> snd (Percentile plat [succeeded (measured_outcomes r repo start end s)] 0 (f64_const 99 100))
                       = Returns (qr_P99Duration qr)
                 \<and> qr_DateRange qr = fmt_date start @ '' to '' @ fmt_date end)"
proof -
  have "length (succeeded (measured_outcomes r repo start end s))
        + length (failed (measured_outcomes r repo start end s))
        = length (measured_outcomes r repo start end s)"
    by (simp add: succeeded_def failed_def sum_length_filter_compl add.commute)
  also have "\<dots> = nat (QueryIterations r)"
    by (simp add: measured_outcomes_def length_query_outcomes)
  finally have tot: "int (length (succeeded (measured_outcomes r repo start end s)))
        + int (length (failed (measured_outcomes r repo start end s)))
        = int (nat (QueryIterations r))" by linarith
  obtain qr s' where
    a: "runQuery plat fmt_date r repo name start end (s, calls)
             = Returns (qr, s', calls @ scenario_calls r start end)" and
    b: "qr_QueryName qr = name" and
    c: "qr_Iterations qr = int (length (succeeded (measured_outcomes r repo start end s)))" and
    d: "qr_ErrorCount qr = int (length (failed (measured_outcomes r repo start end s)))" and
    e: "(if succeeded (measured_outcomes r repo start end s) = []
              then qr = \<lparr>qr_QueryName = name, qr_Iterations = 0, qr_AvgDuration = 0,
                         qr_MinDuration = 0, qr_MaxDuration = 0, qr_P50Duration = 0,
                         qr_P95Duration = 0, qr_P99Duration = 0,
                         qr_ErrorCount = int (length (failed (measured_outcomes r repo start end s))),
                         qr_DateRange = []\<rparr>
              else qr_AvgDuration qr = AvgDuration (succeeded (measured_outcomes r repo start end s))
                 \<and> qr_MinDuration qr = MinDuration (succeeded (measured_outcomes r repo start end s))
                 \<and> qr_MaxDuration qr = MaxDuration (succeeded (measured_outcomes r repo start end s))
                 \<and> snd (Percentile plat [succeeded (measured_outcomes r repo start end s)] 0 (f64_const 50 100))
                       = Returns (qr_P50Duration qr)
                 \<and> snd (Percentile plat [succeeded (measured_outcomes r repo start end s)] 0 (f64_const 95 100))
                       = Returns (qr_P95Duration qr)
                 \<and> snd (Percentile plat [succeeded (measured_outcomes r repo start end s)] 0 (f64_const 99 100))
                       = Returns (qr_P99Duration qr)
                 \<and> qr_DateRange qr = fmt_date start @ '' to '' @ fmt_date end)"
    using runQuery_result [OF assms, of plat fmt_date repo name start "end" s calls] by blast
  have f: "qr_Iterations qr + qr_ErrorCount qr = int (nat (QueryIterations r))"
    using tot by (simp only: c d)
  show ?thesis
    by (intro exI [of _ qr] exI [of _ s'] exI [of _ "calls @ scenario_calls r start end"] conjI
        a b c d e f)
qed

lemma failing_outcomes:
  "measured_outcomes test_runner failingRepository 0 3600 0
     = [(True, 1000), (True, 1000), (True, 1000), (True, 1000), (True, 1000)]"
  by (simp add: measured_outcomes_def test_runner_def failingRepository_def eval_nat_numeral)

theorem C7_runQuery_counts_witness:
  "QueryIterations test_runner < 2 ^ 53
   \<and> (\<exists>s' calls'. runQuery plat_amd64 fmt_date0 test_runner failingRepository ''1_hour'' 0 3600 (0, [])
         = Returns (\<lparr>qr_QueryName = ''1_hour'', qr_Iterations = 0, qr_AvgDuration = 0,
                      qr_MinDuration = 0, qr_MaxDuration = 0, qr_P50Duration = 0,
                      qr_P95Duration = 0, qr_P99Duration = 0, qr_ErrorCount = 5,
                      qr_DateRange = []\<rparr>, s', calls'))"
proof -
  have q: "QueryIterations test_runner < 2 ^ 53" by (simp add: test_runner_def)
  have e: "succeeded (measured_outcomes test_runner failingRepository 0 3600 0) = []"
    by (simp add: failing_outcomes succeeded_def)
  have f: "int (length (failed (measured_outcomes test_runner failingRepository 0 3600 0))) = 5"
    by (simp add: failing_outcomes failed_def)
  from C7_runQuery_counts [OF q, of plat_amd64 fmt_date0 failingRepository "''1_hour''" 0 3600 0 "[]"]
  show ?thesis unfolding e f using q by auto
qed

lemma RunQueries_loop_result:
  assumes "QueryIterations r < 2 ^ 53"
    and "\<forall>k qr. results k = Some qr \<longrightarrow> qr_QueryName qr = k"
  shows "\<exists>m s'. RunQueries_loop plat fmt_date r repo now scs (results, s, calls)
            = Returns (m, s', calls @ concat (map (\<lambda>sc. scenario_calls r (snd sc) now) scs))
          \<and> dom m = dom results \<union> fst ` set scs
          \<and> (\<forall>k qr. m k = Some qr \<longrightarrow> qr_QueryName qr = k)"
  using assms(2)
proof (induction scs arbitrary: results s calls)
  case Nil
  then show ?case by simp
next
  case (Cons sc scs)
  obtain name start where sc: "sc = (name, start)" by (cases sc)
  obtain qr s1 where
    rq: "runQuery plat fmt_date r repo name start now (s, calls)
           = Returns (qr, s1, calls @ scenario_calls r start now)"
    and qn: "qr_QueryName qr = name"
    using runQuery_result [OF assms(1), of plat fmt_date repo name start now s calls] by blast
  have inv: "\<forall>k q. (results(name \<mapsto> qr)) k = Some q \<longrightarrow> qr_QueryName q = k"
    using Cons.prems qn by auto
  obtain m s' where
    l: "RunQueries_loop plat fmt_date r repo now scs
          (results(name \<mapsto> qr), s1, calls @ scenario_calls r start now)
        = Returns (m, s', (calls @ scenario_calls r start now)
             @ concat (map (\<lambda>sc. scenario_calls r (snd sc) now) scs))"
    and d: "dom m = dom (results(name \<mapsto> qr)) \<union> fst ` set scs"
    and n: "\<forall>k qr. m k = Some qr \<longrightarrow> qr_QueryName qr = k"
    using Cons.IH [OF inv, of s1 "calls @ scenario_calls r start now"] by blast
  have run: "RunQueries_loop plat fmt_date r repo now (sc # scs) (results, s, calls)
        = Returns (m, s', calls @ concat (map (\<lambda>sc. scenario_calls r (snd sc) now) (sc # scs)))"
    by (simp add: sc rq l)
  have dm: "dom m = dom results \<union> fst ` set (sc # scs)"
    using d by (auto simp: sc)
  show ?case using run dm n by blast
qed

lemma count_scenario_calls:
  "length (filter (\<lambda>c. snd c = (start, end)) (scenario_calls r start' end))
     = (if start = start' then nat (WarmupIterations r) + nat (QueryIterations r) else 0)"
  by (simp add: scenario_calls_def)

lemma test_calls:
  "scenario_calls test_runner st en
     = [(WarmupCall, st, en), (MeasuredCall, st, en), (MeasuredCall, st, en),
        (MeasuredCall, st, en), (MeasuredCall, st, en), (MeasuredCall, st, en)]"
  by (simp add: scenario_calls_def test_runner_def eval_nat_numeral)

lemma test_calls_all:
  "length (scenario_calls test_runner a en @ scenario_calls test_runner b en
           @ scenario_calls test_runner c en @ scenario_calls test_runner d en) = 24"
  "take 6 (scenario_calls test_runner a en @ scenario_calls test_runner b en
           @ scenario_calls test_runner c en @ scenario_calls test_runner d en)
     = [(WarmupCall, a, en), (MeasuredCall, a, en), (MeasuredCall, a, en),
        (MeasuredCall, a, en), (MeasuredCall, a, en), (MeasuredCall, a, en)]"
  by (simp_all add: test_calls)

lemma apply_calls_append:
  "apply_calls repo (a @ b) s = apply_calls repo b (apply_calls repo a s)"
  by (induction a arbitrary: s) auto

lemma warmup_state:
  "fst (warmup repo start end n (s, calls))
     = apply_calls repo (replicate n (WarmupCall, start, end)) s"
proof (induction n arbitrary: s calls)
  case 0 show ?case by simp
next
  case (Suc n)
  obtain err d s1 where g: "GetEventStats repo s start end = (err, d, s1)"
    by (cases "GetEventStats repo s start end") auto
  show ?case using Suc.IH [of s1 "calls @ [(WarmupCall, start, end)]"] by (simp add: g)
qed

lemma measure_loop_state:
  "fst (snd (snd (measure_loop repo start end n (durations, errors, s, calls))))
     = apply_calls repo (replicate n (MeasuredCall, start, end)) s"
proof (induction n arbitrary: durations errors s calls)
  case 0 show ?case by simp
next
  case (Suc n)
  obtain err d s1 where g: "GetEventStats repo s start end = (err, d, s1)"
    by (cases "GetEventStats repo s start end") auto
  show ?case
  proof (cases err)
    case None
    then show ?thesis
      using Suc.IH [of "durations @ [d]" errors s1 "calls @ [(MeasuredCall, start, end)]"]
      by (simp add: g)
  next
    case (Some e)
    then show ?thesis
      using Suc.IH [of durations "errors + 1" s1 "calls @ [(MeasuredCall, start, end)]"]
      by (simp add: g)
  qed
qed

lemma measureQuery_state:
  "fst (snd (snd (measureQuery r repo start end
       (warmup repo start end (nat (WarmupIterations r)) (s, calls)))))
     = apply_calls repo (scenario_calls r start end) s"
  by (simp add: measureQuery_def measure_loop_state warmup_state scenario_calls_def
      apply_calls_append)

lemma runQuery_state:
  assumes "runQuery plat fmt_date r repo name start end (s, calls) = Returns (qr, s', calls')"
  shows "s' = apply_calls repo (scenario_calls r start end) s"
proof -
  obtain d e s2 c2 where
    m: "measureQuery r repo start end (warmup repo start end (nat (WarmupIterations r)) (s, calls))
          = (d, e, s2, c2)"
    by (metis prod_cases4)
  have "s' = s2"
    using assms
    by (auto simp: runQuery_def Let_def m split: if_splits prod.splits outcome.splits)
  moreover have "s2 = apply_calls repo (scenario_calls r start end) s"
    using measureQuery_state [of r repo start "end" s calls] by (simp add: m)
  ultimately show ?thesis by simp
qed

lemma runQuery_step:
  assumes "QueryIterations r < 2 ^ 53"
  shows "\<exists>qr. runQuery plat fmt_date r repo name start end (s, calls)
             = Returns (qr, apply_calls repo (scenario_calls r start end) s,
                        calls @ scenario_calls r start end)
         \<and> qr_QueryName qr = name
         \<and> qr_Iterations qr = int (length (succeeded (measured_outcomes r repo start end s)))
         \<and> qr_ErrorCount qr = int (length (failed (measured_outcomes r repo start end s)))"
proof -
  obtain qr s' where
    a: "runQuery plat fmt_date r repo name start end (s, calls)
             = Returns (qr, s', calls @ scenario_calls r start end)" and
    b: "qr_QueryName qr = name" and
    c: "qr_Iterations qr = int (length (succeeded (measured_outcomes r repo start end s)))" and
    d: "qr_ErrorCount qr = int (length (failed (measured_outcomes r repo start end s)))"
    using runQuery_result [OF assms, of plat fmt_date repo name start "end" s calls] by blast
  have "s' = apply_calls repo (scenario_calls r start end) s"
    by (rule runQuery_state [OF a])
  then show ?thesis using a b c d by blast
qed

section \<open>Claim C6\<close>

text \<open>
  C6. Every run of \<open>RunQueries\<close> (with a number of iterations below \<open>2 ^ 53\<close>)
  returns a map with exactly the four keys \<open>1_hour\<close>, \<open>1_day\<close>, \<open>1_week\<close> and
  \<open>1_month\<close>, each holding the result of that name. The calls of \<open>GetEventStats\<close> it
  issues against the target are, scenario after scenario, all the warmup calls of the
  scenario and then all its measured calls: the target is left in the state that
  exactly these calls, in this order and with these ranges, lead to, and the counts of
  each scenario's result are those of the replies the target gives to its measured
  calls, which start in the state the calls before them, the scenario's warmup calls
  included, have left. For each scenario the number of calls is the number of turns of
  the two loops, which is \<open>warmupIterations + queryIterations\<close> when neither is
  negative. With the counting mock of the tests, one warmup call and five iterations,
  the target has counted 24 calls at the end.
\<close>

theorem C6_RunQueries_keys_and_calls:
  assumes "QueryIterations r < 2 ^ 53"
  shows "\<exists>m s' calls q1 q2 q3 q4.
           RunQueries plat fmt_date now r repo s = Returns (m, s', calls)
         \<and> dom m = {''1_hour'', ''1_day'', ''1_week'', ''1_month''}
         \<and> calls = scenario_calls r (now - 1 * hour_ns) now
                    @ scenario_calls r (now - 24 * hour_ns) now
                    @ scenario_calls r (now - 7 * 24 * hour_ns) now
                    @ scenario_calls r (now - 30 * 24 * hour_ns) now
         \<and> s' = apply_calls repo calls s
         \<and> m ''1_hour'' = Some q1 \<and> m ''1_day'' = Some q2
         \<and> m ''1_week'' = Some q3 \<and> m ''1_month'' = Some q4
         \<and> qr_QueryName q1 = ''1_hour'' \<and> qr_QueryName q2 = ''1_day''
         \<and> qr_QueryName q3 = ''1_week'' \<and> qr_QueryName q4 = ''1_month''
         \<and> qr_Iterations q1 = int (length (succeeded
               (measured_outcomes r repo (now - 1 * hour_ns) now s)))
         \<and> qr_ErrorCount q1 = int (length (failed
               (measured_outcomes r repo (now - 1 * hour_ns) now s)))
         \<and> qr_Iterations q2 = int (length (succeeded
               (measured_outcomes r repo (now - 24 * hour_ns) now
                  (apply_calls repo (scenario_calls r (now - 1 * hour_ns) now) s))))
         \<and> qr_ErrorCount q2 = int (length (failed
               (measured_outcomes r repo (now - 24 * hour_ns) now
                  (apply_calls repo (scenario_calls r (now - 1 * hour_ns) now) s))))
         \<and> qr_Iterations q3 = int (length (succeeded
               (measured_outcomes r repo (now - 7 * 24 * hour_ns) now
                  (apply_calls repo (scenario_calls r (now - 1 * hour_ns) now
                                     @ scenario_calls r (now - 24 * hour_ns) now) s))))
         \<and> qr_ErrorCount q3 = int (length (failed
               (measured_outcomes r repo (now - 7 * 24 * hour_ns) now
                  (apply_calls repo (scenario_calls r (now - 1 * hour_ns) now
                                     @ scenario_calls r (now - 24 * hour_ns) now) s))))
         \<and> qr_Iterations q4 = int (length (succeeded
               (measured_outcomes r repo (now - 30 * 24 * hour_ns) now
                  (apply_calls repo (scenario_calls r (now - 1 * hour_ns) now
                                     @ scenario_calls r (now - 24 * hour_ns) now
                                     @ scenario_calls r (now - 7 * 24 * hour_ns) now) s))))
         \<and> qr_ErrorCount q4 = int (length (failed
               (measured_outcomes r repo (now - 30 * 24 * hour_ns) now
                  (apply_calls repo (scenario_calls r (now - 1 * hour_ns) now
                                     @ scenario_calls r (now - 24 * hour_ns) now
                                     @ scenario_calls r (now - 7 * 24 * hour_ns) now) s))))
         \<and> (\<forall>sc \<in> set (scenarios now).
               length (filter (\<lambda>c. snd c = (snd sc, now)) calls)
                 = nat (WarmupIterations r) + nat (QueryIterations r)
               \<and> (0 \<le> WarmupIterations r \<and> 0 \<le> QueryIterations r \<longrightarrow>
                    int (length (filter (\<lambda>c. snd c = (snd sc, now)) calls))
                      = WarmupIterations r + QueryIterations r))"
proof -
  define t1 where "t1 = now - 1 * hour_ns"
  define t2 where "t2 = now - 24 * hour_ns"
  define t3 where "t3 = now - 7 * 24 * hour_ns"
  define t4 where "t4 = now - 30 * 24 * hour_ns"
  define c1 where "c1 = scenario_calls r t1 now"
  define c2 where "c2 = scenario_calls r t2 now"
  define c3 where "c3 = scenario_calls r t3 now"
  define c4 where "c4 = scenario_calls r t4 now"
  define s1 where "s1 = apply_calls repo c1 s"
  define s2 where "s2 = apply_calls repo c2 s1"
  define s3 where "s3 = apply_calls repo c3 s2"
  define s4 where "s4 = apply_calls repo c4 s3"
  obtain q1 where
    r1: "runQuery plat fmt_date r repo ''1_hour'' t1 now (s, []) = Returns (q1, s1, [] @ c1)"
    and n1: "qr_QueryName q1 = ''1_hour''"
    and i1: "qr_Iterations q1 = int (length (succeeded (measured_outcomes r repo t1 now s)))"
    and e1: "qr_ErrorCount q1 = int (length (failed (measured_outcomes r repo t1 now s)))"
    using runQuery_step [OF assms, of plat fmt_date repo "''1_hour''" t1 now s "[]"]
    unfolding c1_def s1_def by blast
  obtain q2 where
    r2: "runQuery plat fmt_date r repo ''1_day'' t2 now (s1, c1) = Returns (q2, s2, c1 @ c2)"
    and n2: "qr_QueryName q2 = ''1_day''"
    and i2: "qr_Iterations q2 = int (length (succeeded (measured_outcomes r repo t2 now s1)))"
    and e2: "qr_ErrorCount q2 = int (length (failed (measured_outcomes r repo t2 now s1)))"
    using runQuery_step [OF assms, of plat fmt_date repo "''1_day''" t2 now s1 c1]
    unfolding c2_def s2_def by blast
  obtain q3 where
    r3: "runQuery plat fmt_date r repo ''1_week'' t3 now (s2, c1 @ c2) = Returns (q3, s3, (c1 @ c2) @ c3)"
    and n3: "qr_QueryName q3 = ''1_week''"
    and i3: "qr_Iterations q3 = int (length (succeeded (measured_outcomes r repo t3 now s2)))"
    and e3: "qr_ErrorCount q3 = int (length (failed (measured_outcomes r repo t3 now s2)))"
    using runQuery_step [OF assms, of plat fmt_date repo "''1_week''" t3 now s2 "c1 @ c2"]
    unfolding c3_def s3_def by blast
  obtain q4 where
    r4: "runQuery plat fmt_date r repo ''1_month'' t4 now (s3, (c1 @ c2) @ c3)
           = Returns (q4, s4, ((c1 @ c2) @ c3) @ c4)"
    and n4: "qr_QueryName q4 = ''1_month''"
    and i4: "qr_Iterations q4 = int (length (succeeded (measured_outcomes r repo t4 now s3)))"
    and e4: "qr_ErrorCount q4 = int (length (failed (measured_outcomes r repo t4 now s3)))"
    using runQuery_step [OF assms, of plat fmt_date repo "''1_month''" t4 now s3 "(c1 @ c2) @ c3"]
    unfolding c4_def s4_def by blast
  define m where "m = [''1_hour'' \<mapsto> q1, ''1_day'' \<mapsto> q2, ''1_week'' \<mapsto> q3, ''1_month'' \<mapsto> q4]"
  define calls where "calls = c1 @ c2 @ c3 @ c4"
  have sc: "scenarios now = [(''1_hour'', t1), (''1_day'', t2), (''1_week'', t3), (''1_month'', t4)]"
    by (simp add: scenarios_def t1_def t2_def t3_def t4_def)
  have run: "RunQueries plat fmt_date now r repo s = Returns (m, s4, calls)"
    unfolding RunQueries_def sc
    using r1 r2 r3 r4 by (simp add: m_def calls_def)
  have dm: "dom m = {''1_hour'', ''1_day'', ''1_week'', ''1_month''}"
    by (auto simp: m_def)
  have m1: "m ''1_hour'' = Some q1" and m2: "m ''1_day'' = Some q2"
    and m3: "m ''1_week'' = Some q3" and m4: "m ''1_month'' = Some q4"
    by (simp_all add: m_def)
  have st: "s4 = apply_calls repo calls s"
    by (simp add: calls_def apply_calls_append s4_def s3_def s2_def s1_def)
  have s1e: "s1 = apply_calls repo c1 s" by (rule s1_def)
  have s2e: "s2 = apply_calls repo (c1 @ c2) s"
    by (simp add: apply_calls_append s2_def s1_def)
  have s3e: "s3 = apply_calls repo (c1 @ c2 @ c3) s"
    by (simp add: apply_calls_append s3_def s2_def s1_def)
  have ne: "t2 \<noteq> t1" "t3 \<noteq> t1" "t4 \<noteq> t1" "t3 \<noteq> t2" "t4 \<noteq> t2" "t4 \<noteq> t3"
    by (simp_all add: t1_def t2_def t3_def t4_def hour_ns_def)
  have cnt: "length (filter (\<lambda>c. snd c = (st, now)) calls)
                 = nat (WarmupIterations r) + nat (QueryIterations r)"
    if st: "st \<in> {t1, t2, t3, t4}" for st
  proof -
    consider "st = t1" | "st = t2" | "st = t3" | "st = t4" using st by blast
    then show ?thesis
    proof cases
      case 1 then show ?thesis
        using ne by (simp only: calls_def c1_def c2_def c3_def c4_def filter_append length_append
            count_scenario_calls) simp
    next
      case 2 then show ?thesis
        using ne by (simp only: calls_def c1_def c2_def c3_def c4_def filter_append length_append
            count_scenario_calls) simp
    next
      case 3 then show ?thesis
        using ne by (simp only: calls_def c1_def c2_def c3_def c4_def filter_append length_append
            count_scenario_calls) simp
    next
      case 4 then show ?thesis
        using ne by (simp only: calls_def c1_def c2_def c3_def c4_def filter_append length_append
            count_scenario_calls) simp
    qed
  qed
  have sts: "snd x \<in> {t1, t2, t3, t4}" if "x \<in> set (scenarios now)" for x
    using that by (auto simp: sc)
  have f: "\<forall>sc \<in> set (scenarios now).
               length (filter (\<lambda>c. snd c = (snd sc, now)) calls)
                 = nat (WarmupIterations r) + nat (QueryIterations r)
               \<and> (0 \<le> WarmupIterations r \<and> 0 \<le> QueryIterations r \<longrightarrow>
                    int (length (filter (\<lambda>c. snd c = (snd sc, now)) calls))
                      = WarmupIterations r + QueryIterations r)"
  proof (intro ballI conjI impI)
    fix x assume "x \<in> set (scenarios now)"
    then show "length (filter (\<lambda>c. snd c = (snd x, now)) calls)
                 = nat (WarmupIterations r) + nat (QueryIterations r)"
      by (intro cnt sts)
  next
    fix x assume x: "x \<in> set (scenarios now)"
      and nn: "0 \<le> WarmupIterations r \<and> 0 \<le> QueryIterations r"
    have "length (filter (\<lambda>c. snd c = (snd x, now)) calls)
                 = nat (WarmupIterations r) + nat (QueryIterations r)"
      using x by (intro cnt sts)
    then show "int (length (filter (\<lambda>c. snd c = (snd x, now)) calls))
                      = WarmupIterations r + QueryIterations r"
      using nn by simp
  qed
  have ce: "calls = c1 @ c2 @ c3 @ c4" by (rule calls_def)
  show ?thesis
    unfolding t1_def [symmetric] t2_def [symmetric] t3_def [symmetric] t4_def [symmetric]
      c1_def [symmetric] c2_def [symmetric] c3_def [symmetric] c4_def [symmetric]
    apply (rule exI [of _ m], rule exI [of _ s4], rule exI [of _ calls], rule exI [of _ q1],
        rule exI [of _ q2], rule exI [of _ q3], rule exI [of _ q4])
    apply (intro conjI)
    apply (rule run dm ce st m1 m2 m3 m4 n1 n2 n3 n4 i1 e1 f
        i2 [unfolded s1e] e2 [unfolded s1e] i3 [unfolded s2e] e3 [unfolded s2e]
        i4 [unfolded s3e] e4 [unfolded s3e])+
    done
qed


lemma mock_state:
  "apply_calls (mockRepository every_2nd)
     (scenario_calls test_runner a en @ scenario_calls test_runner b en
      @ scenario_calls test_runner c en @ scenario_calls test_runner d en) 0 = 24"
  by (simp add: test_calls mockRepository_def)

lemma mock_outcomes:
  "measured_outcomes test_runner (mockRepository every_2nd) a en 0
     = [(False, 1000), (False, 1000), (False, 1000), (False, 1000), (False, 1000)]"
  by (simp add: measured_outcomes_def test_runner_def mockRepository_def eval_nat_numeral)

theorem C6_RunQueries_keys_and_calls_witness:
  "QueryIterations test_runner < 2 ^ 53
   \<and> (\<exists>m calls q1. RunQueries plat_amd64 fmt_date0 0 test_runner (mockRepository every_2nd) 0
          = Returns (m, 24, calls)
        \<and> dom m = {''1_hour'', ''1_day'', ''1_week'', ''1_month''}
        \<and> length calls = 24
        \<and> take 6 calls = [(WarmupCall, 0 - 1 * hour_ns, 0),
              (MeasuredCall, 0 - 1 * hour_ns, 0), (MeasuredCall, 0 - 1 * hour_ns, 0),
              (MeasuredCall, 0 - 1 * hour_ns, 0), (MeasuredCall, 0 - 1 * hour_ns, 0),
              (MeasuredCall, 0 - 1 * hour_ns, 0)]
        \<and> m ''1_hour'' = Some q1 \<and> qr_Iterations q1 = 5 \<and> qr_ErrorCount q1 = 0)"
proof -
  have q: "QueryIterations test_runner < 2 ^ 53" by (simp add: test_runner_def)
  have "\<exists>m s' calls q1. RunQueries plat_amd64 fmt_date0 0 test_runner (mockRepository every_2nd) 0
          = Returns (m, s', calls)
        \<and> dom m = {''1_hour'', ''1_day'', ''1_week'', ''1_month''}
        \<and> calls = scenario_calls test_runner (0 - 1 * hour_ns) 0
                    @ scenario_calls test_runner (0 - 24 * hour_ns) 0
                    @ scenario_calls test_runner (0 - 7 * 24 * hour_ns) 0
                    @ scenario_calls test_runner (0 - 30 * 24 * hour_ns) 0
        \<and> s' = apply_calls (mockRepository every_2nd) calls 0
        \<and> m ''1_hour'' = Some q1
        \<and> qr_Iterations q1 = int (length (succeeded
               (measured_outcomes test_runner (mockRepository every_2nd) (0 - 1 * hour_ns) 0 0)))
        \<and> qr_ErrorCount q1 = int (length (failed
               (measured_outcomes test_runner (mockRepository every_2nd) (0 - 1 * hour_ns) 0 0)))"
    using C6_RunQueries_keys_and_calls [OF q, of plat_amd64 fmt_date0 0 "mockRepository every_2nd" 0]
    apply (elim exE conjE)
    apply (intro exI conjI)
          apply assumption+
    done
  then obtain m s' calls q1 where
    a: "RunQueries plat_amd64 fmt_date0 0 test_runner (mockRepository every_2nd) 0
          = Returns (m, s', calls)" and
    b: "dom m = {''1_hour'', ''1_day'', ''1_week'', ''1_month''}" and
    c: "calls = scenario_calls test_runner (0 - 1 * hour_ns) 0
                    @ scenario_calls test_runner (0 - 24 * hour_ns) 0
                    @ scenario_calls test_runner (0 - 7 * 24 * hour_ns) 0
                    @ scenario_calls test_runner (0 - 30 * 24 * hour_ns) 0" and
    d: "s' = apply_calls (mockRepository every_2nd) calls 0" and
    e: "m ''1_hour'' = Some q1" and
    f: "qr_Iterations q1 = int (length (succeeded
               (measured_outcomes test_runner (mockRepository every_2nd) (0 - 1 * hour_ns) 0 0)))" and
    g: "qr_ErrorCount q1 = int (length (failed
               (measured_outcomes test_runner (mockRepository every_2nd) (0 - 1 * hour_ns) 0 0)))"
    by (elim exE conjE)
  have l: "length calls = 24"
    unfolding c by (rule test_calls_all(1))
  have t: "take 6 calls = [(WarmupCall, 0 - 1 * hour_ns, 0),
              (MeasuredCall, 0 - 1 * hour_ns, 0), (MeasuredCall, 0 - 1 * hour_ns, 0),
              (MeasuredCall, 0 - 1 * hour_ns, 0), (MeasuredCall, 0 - 1 * hour_ns, 0),
              (MeasuredCall, 0 - 1 * hour_ns, 0)]"
    unfolding c by (rule test_calls_all(2))
  have s24: "s' = 24" unfolding d c by (rule mock_state)
  have a': "RunQueries plat_amd64 fmt_date0 0 test_runner (mockRepository every_2nd) 0
          = Returns (m, 24, calls)" using a s24 by simp
  have f': "qr_Iterations q1 = 5" unfolding f mock_outcomes by (simp add: succeeded_def)
  have g': "qr_ErrorCount q1 = 0" unfolding g mock_outcomes by (simp add: failed_def)
  show ?thesis
    by (intro conjI exI [of _ m] exI [of _ calls] exI [of _ q1] q a' b l t e f' g')
qed

section \<open>The events of a run and its requested total\<close>

lemma fst_insert_outcomes: "map fst (insert_outcomes repo bs s) = bs"
proof (induction bs arbitrary: s)
  case Nil show ?case by simp
next
  case (Cons b bs)
  then show ?case by (cases "InsertBatch repo s b") simp
qed

lemma events_inserted_split:
  "events_inserted cs + (\<Sum>c\<leftarrow>filter snd cs. int (length (fst c)))
     = (\<Sum>b\<leftarrow>map fst cs. int (length b))"
  by (induction cs) (simp_all add: events_inserted_def)

lemma failed_sum_pos:
  assumes "\<forall>c \<in> set cs. 0 < length (fst c)" "0 < batches_failed cs"
  shows "0 < (\<Sum>c\<leftarrow>filter snd cs. int (length (fst c)))"
proof -
  from assms(2) have "filter snd cs \<noteq> []" by (auto simp: batches_failed_def)
  then obtain c cs' where f: "filter snd cs = c # cs'" by (cases "filter snd cs") auto
  have "c \<in> set cs" using f by (metis filter_is_subset list.set_intros(1) subsetD)
  then have "0 < length (fst c)" using assms(1) by blast
  then have a: "0 < int (length (fst c))" by linarith
  have b: "0 \<le> (\<Sum>c\<leftarrow>cs'. int (length (fst c)))" by (rule sum_list_nonneg) auto
  have "(\<Sum>c\<leftarrow>filter snd cs. int (length (fst c)))
        = int (length (fst c)) + (\<Sum>c\<leftarrow>cs'. int (length (fst c)))"
    by (simp only: f list.map sum_list.Cons)
  then show ?thesis using a b by linarith
qed

lemma insert_calls_total:
  assumes "1 \<le> BatchSize r" "mset (sched (batches_of (Generate addDate ds (New cnt (BatchSize r)))))
            = mset (batches_of (Generate addDate ds (New cnt (BatchSize r))))"
    and "0 < batches_failed (insert_calls addDate ds sched r repo s cnt)"
  shows "events_inserted (insert_calls addDate ds sched r repo s cnt) < cnt"
proof -
  define cs where "cs = insert_calls addDate ds sched r repo s cnt"
  define bs where "bs = batches_of (Generate addDate ds (New cnt (BatchSize r)))"
  have w: "\<not> Workers r \<le> 0"
    using assms(3) by (auto simp: insert_calls_def batches_failed_def split: if_splits)
  have cs: "cs = insert_outcomes repo (sched bs) s"
    using w by (simp add: cs_def insert_calls_def bs_def)
  have fst: "map fst cs = sched bs" by (simp add: cs fst_insert_outcomes)
  have ne: "bs \<noteq> []"
  proof
    assume "bs = []"
    then have "mset (sched bs) = {#}" using assms(2) by (simp add: bs_def)
    then have "sched bs = []" by simp
    then have "cs = []" by (simp add: cs)
    then show False using assms(3) by (simp add: cs_def [symmetric] batches_failed_def)
  qed
  have pos: "0 \<le> cnt"
  proof (rule ccontr)
    assume "\<not> 0 \<le> cnt"
    then have "Generate addDate ds (New cnt (BatchSize r)) = Returns ([], New cnt (BatchSize r))"
      by (simp add: Generate_def New_def Generate_loop.simps)
    then show False using ne by (simp add: bs_def batches_of_def)
  qed
  obtain bs0 g' where run0: "Generate_loop addDate ds (New cnt (BatchSize r)) = Returns (bs0, g')"
    using Generate_loop_sizes [of "New cnt (BatchSize r)" addDate ds] assms(1) pos
    by (auto simp: New_def)
  have "bs = bs0" by (simp add: bs_def Generate_def run0 batches_of_def)
  then have run: "Generate_loop addDate ds (New cnt (BatchSize r)) = Returns (bs, g')"
    using run0 by simp
  have sum: "(\<Sum>b\<leftarrow>bs. int (length b)) = cnt"
    and len: "\<forall>b \<in> set bs. 0 < length b"
    using Generate_loop_sum [OF _ _ run] assms(1) pos by (simp_all add: New_def)
  have m: "mset (sched bs) = mset bs" using assms(2) by (simp only: bs_def)
  have "(\<Sum>b\<leftarrow>sched bs. int (length b)) = (\<Sum>b\<leftarrow>bs. int (length b))"
  proof -
    have "mset (map (\<lambda>b. int (length b)) (sched bs)) = mset (map (\<lambda>b. int (length b)) bs)"
      using m by (metis mset_map)
    then show ?thesis by (metis sum_mset_sum_list)
  qed
  then have tot: "(\<Sum>b\<leftarrow>map fst cs. int (length b)) = cnt"
    by (simp only: fst sum)
  have "set (sched bs) = set bs" using m by (rule mset_eq_setD)
  then have "\<forall>b \<in> set (map fst cs). 0 < length b" using len by (simp only: fst)
  then have l2: "\<forall>c \<in> set cs. 0 < length (fst c)" by simp
  have "0 < (\<Sum>c\<leftarrow>filter snd cs. int (length (fst c)))"
    using l2 assms(3) unfolding cs_def [symmetric] by (rule failed_sum_pos)
  then have "events_inserted cs < cnt"
    using events_inserted_split [of cs] tot by linarith
  then show ?thesis by (simp only: cs_def)
qed

section \<open>Errors of the float64 operations\<close>

lemma fin_nonnegE:
  assumes "fin_nonneg x"
  obtains m e where "x = Finite m e" "0 \<le> m"
  using assms by (cases x) (auto simp: fin_nonneg_def)

lemma valof_nonneg: "fin_nonneg x \<Longrightarrow> 0 \<le> valof x"
  by (erule fin_nonnegE) simp

lemma f64_mul_err:
  assumes "fin_nonneg a" "fin_nonneg b" "valof a * valof b < 2 powi 1023"
  shows "fin_nonneg (f64_mul a b)
       \<and> \<bar>valof (f64_mul a b) - valof a * valof b\<bar>
            \<le> valof a * valof b * 2 powi (- 53) + 2 powi (- 1075)"
proof -
  obtain ma ea where a: "a = Finite ma ea" and ma: "0 \<le> ma" using assms(1) by (rule fin_nonnegE)
  obtain mb eb where b: "b = Finite mb eb" and mb: "0 \<le> mb" using assms(2) by (rule fin_nonnegE)
  have w0: "0 \<le> (2::real) powi (- 1075)" by simp
  show ?thesis
  proof (cases "ma * mb = 0")
    case True
    then have z: "valof a * valof b = 0" by (auto simp: a b)
    have "f64_mul a b = Finite 0 0" using True by (simp add: a b f64_round_def)
    then show ?thesis using w0 by (simp add: z fin_nonneg_def)
  next
    case False
    then have pos: "0 < ma * mb" using ma mb by (simp add: zero_less_mult_iff)
    have x: "real_of_int (ma * mb) / real_of_int 1 * 2 powi (ea + eb) = valof a * valof b"
      unfolding a b valof.simps by (rule prod_value)
    have lt: "real_of_int (ma * mb) / real_of_int 1 * 2 powi (ea + eb) < 2 powi 1023"
      using assms(3) by (simp only: x)
    obtain q k where r: "f64_round (ma * mb) 1 (ea + eb) = Finite q k" and q0: "0 \<le> q"
      and err: "\<bar>real_of_int q * 2 powi k - real_of_int (ma * mb) / real_of_int 1 * 2 powi (ea + eb)\<bar>
                \<le> real_of_int (ma * mb) / real_of_int 1 * 2 powi (ea + eb) * 2 powi (- 53) + 2 powi (- 1075)"
      using f64_round_err [OF pos _ lt] by auto
    have m: "f64_mul a b = Finite q k" by (simp only: a b f64_mul.simps r)
    show ?thesis
      using q0 err unfolding x by (simp add: m fin_nonneg_def)
  qed
qed

lemma f64_div_err:
  assumes "fin_nonneg a" "b = Finite mb eb" "0 < mb" "valof a / valof b < 2 powi 1023"
  shows "fin_nonneg (f64_div a b)
       \<and> \<bar>valof (f64_div a b) - valof a / valof b\<bar>
            \<le> valof a / valof b * 2 powi (- 53) + 2 powi (- 1075)"
proof -
  obtain ma ea where a: "a = Finite ma ea" and ma: "0 \<le> ma" using assms(1) by (rule fin_nonnegE)
  have w0: "0 \<le> (2::real) powi (- 1075)" by simp
  have d: "f64_div a b = (if ma = 0 then Finite 0 0 else f64_round ma mb (ea - eb))"
    using assms(3) by (simp add: a assms(2) f64_round_def)
  show ?thesis
  proof (cases "ma = 0")
    case True
    then have z: "valof a / valof b = 0" by (simp add: a)
    show ?thesis using w0 True by (simp add: d z fin_nonneg_def)
  next
    case False
    then have pos: "0 < ma" using ma by simp
    have x: "real_of_int ma / real_of_int mb * 2 powi (ea - eb) = valof a / valof b"
      unfolding a assms(2) valof.simps by (simp add: power_int_diff)
    have lt: "real_of_int ma / real_of_int mb * 2 powi (ea - eb) < 2 powi 1023"
      using assms(4) by (simp only: x)
    obtain q k where r: "f64_round ma mb (ea - eb) = Finite q k" and q0: "0 \<le> q"
      and err: "\<bar>real_of_int q * 2 powi k - real_of_int ma / real_of_int mb * 2 powi (ea - eb)\<bar>
                \<le> real_of_int ma / real_of_int mb * 2 powi (ea - eb) * 2 powi (- 53) + 2 powi (- 1075)"
      using f64_round_err [OF pos assms(3) lt] by auto
    have m: "f64_div a b = Finite q k" using False by (simp only: d r if_False)
    show ?thesis
      using q0 err unfolding x by (simp add: m fin_nonneg_def)
  qed
qed


lemma f64_add_err:
  assumes "fin_nonneg a" "fin_nonneg b" "valof a + valof b < 2 powi 1023"
  shows "fin_nonneg (f64_add a b)
       \<and> \<bar>valof (f64_add a b) - (valof a + valof b)\<bar>
            \<le> (valof a + valof b) * 2 powi (- 53) + 2 powi (- 1075)"
proof -
  obtain ma ea where a: "a = Finite ma ea" and ma: "0 \<le> ma" using assms(1) by (rule fin_nonnegE)
  obtain mb eb where b: "b = Finite mb eb" and mb: "0 \<le> mb" using assms(2) by (rule fin_nonnegE)
  have w0: "0 \<le> (2::real) powi (- 1075)" by simp
  define e where "e = min ea eb"
  define n where "n = ma * pow2 (ea - e) + mb * pow2 (eb - e)"
  have s: "f64_add a b = f64_round n 1 e"
    by (simp add: a b Let_def n_def e_def)
  have pa: "real_of_int (pow2 (ea - e)) * 2 powi e = 2 powi ea"
  proof -
    have "0 \<le> ea - e" by (simp add: e_def)
    then have "real_of_int (pow2 (ea - e)) = 2 powi (ea - e)" by (rule pow2_nonneg_eq)
    then show ?thesis by (simp add: power_int_add [symmetric])
  qed
  have pb: "real_of_int (pow2 (eb - e)) * 2 powi e = 2 powi eb"
  proof -
    have "0 \<le> eb - e" by (simp add: e_def)
    then have "real_of_int (pow2 (eb - e)) = 2 powi (eb - e)" by (rule pow2_nonneg_eq)
    then show ?thesis by (simp add: power_int_add [symmetric])
  qed
  have x: "real_of_int n / real_of_int 1 * 2 powi e = valof a + valof b"
  proof -
    have "real_of_int n / real_of_int 1 * 2 powi e
          = real_of_int ma * (real_of_int (pow2 (ea - e)) * 2 powi e)
            + real_of_int mb * (real_of_int (pow2 (eb - e)) * 2 powi e)"
      by (simp add: n_def algebra_simps)
    then show ?thesis by (simp only: pa pb a b valof.simps)
  qed
  have n0: "0 \<le> n" using ma mb by (simp add: n_def)
  show ?thesis
  proof (cases "n = 0")
    case True
    then have z: "valof a + valof b = 0" using x by simp
    have "f64_add a b = Finite 0 0" using True by (simp add: s f64_round_def)
    then show ?thesis using w0 by (simp add: z fin_nonneg_def)
  next
    case False
    then have pos: "0 < n" using n0 by simp
    have lt: "real_of_int n / real_of_int 1 * 2 powi e < 2 powi 1023"
      using assms(3) by (simp only: x)
    obtain q k where r: "f64_round n 1 e = Finite q k" and q0: "0 \<le> q"
      and err: "\<bar>real_of_int q * 2 powi k - real_of_int n / real_of_int 1 * 2 powi e\<bar>
                \<le> real_of_int n / real_of_int 1 * 2 powi e * 2 powi (- 53) + 2 powi (- 1075)"
      using f64_round_err [OF pos _ lt] by auto
    have m: "f64_add a b = Finite q k" by (simp only: s r)
    show ?thesis
      using q0 err unfolding x by (simp add: m fin_nonneg_def)
  qed
qed

lemma f64_less_valof:
  "f64_less (Finite m1 e1) (Finite m2 e2) = (valof (Finite m1 e1) < valof (Finite m2 e2))"
proof -
  define e where "e = min e1 e2"
  have p1: "real_of_int (pow2 (e1 - e)) * 2 powi e = 2 powi e1"
  proof -
    have "0 \<le> e1 - e" by (simp add: e_def)
    then have "real_of_int (pow2 (e1 - e)) = 2 powi (e1 - e)" by (rule pow2_nonneg_eq)
    then show ?thesis by (simp add: power_int_add [symmetric])
  qed
  have p2: "real_of_int (pow2 (e2 - e)) * 2 powi e = 2 powi e2"
  proof -
    have "0 \<le> e2 - e" by (simp add: e_def)
    then have "real_of_int (pow2 (e2 - e)) = 2 powi (e2 - e)" by (rule pow2_nonneg_eq)
    then show ?thesis by (simp add: power_int_add [symmetric])
  qed
  have "f64_less (Finite m1 e1) (Finite m2 e2) = (m1 * pow2 (e1 - e) < m2 * pow2 (e2 - e))"
    by (simp add: Let_def e_def)
  also have "\<dots> = (real_of_int (m1 * pow2 (e1 - e)) < real_of_int (m2 * pow2 (e2 - e)))"
    by (simp only: of_int_less_iff)
  also have "\<dots> = (real_of_int (m1 * pow2 (e1 - e)) * 2 powi e
                       < real_of_int (m2 * pow2 (e2 - e)) * 2 powi e)"
    by (simp add: mult_less_cancel_right_pos)
  also have "real_of_int (m1 * pow2 (e1 - e)) * 2 powi e = real_of_int m1 * 2 powi e1"
    using p1 by (simp add: mult.assoc)
  also have "real_of_int (m2 * pow2 (e2 - e)) * 2 powi e = real_of_int m2 * 2 powi e2"
    using p2 by (simp add: mult.assoc)
  finally show ?thesis by simp
qed

lemma f64_of_int_val:
  assumes "0 \<le> n" "n < 2 ^ 53"
  shows "fin_nonneg (f64_of_int n) \<and> valof (f64_of_int n) = real_of_int n"
  using f64_of_int_exact [OF assms] by (auto simp: fin_nonneg_def)


lemma u_half: "(2::real) powi (- 53) \<le> 1 / 2"
proof -
  have "(2::real) powi (- 53) \<le> 2 powi (- 1)" by (intro power_int_increasing) simp_all
  then show ?thesis by simp
qed

lemma w_small: "(2::real) powi (- 1075) \<le> 1 / 1099511627776"
proof -
  have "(2::real) powi (- 1075) \<le> 2 powi (- 40)" by (intro power_int_increasing) simp_all
  then show ?thesis by (simp add: power_int_minus inverse_eq_divide)
qed

lemma one_below_max: "(1::real) \<le> 2 powi 1023"
proof -
  have "(2::real) powi 0 \<le> 2 powi 1023" by (intro power_int_increasing) simp_all
  then show ?thesis by simp
qed

lemma big_below_max: "(2::real) ^ 100 \<le> 2 powi 1023"
proof -
  have "(2::real) powi 100 \<le> 2 powi 1023" by (intro power_int_increasing) simp_all
  then show ?thesis by (simp add: power_int_def)
qed

lemma const_1e9:
  "f64_const 1000000000 1 = Finite 8388608000000000 (- 23)"
  by code_simp

lemma Seconds_bounds:
  assumes "0 < d" "d < 2 ^ 63"
  shows "fin_nonneg (Seconds d) \<and> 1 / 17179869184 \<le> valof (Seconds d)
       \<and> valof (Seconds d) \<le> 68719476736"
proof -
  define u :: real where "u = 2 powi (- 53)"
  define w :: real where "w = 2 powi (- 1075)"
  have u0: "0 \<le> u" and uh: "u \<le> 1 / 2" by (simp_all add: u_def u_half)
  have w0: "0 \<le> w" and ws: "w \<le> 1 / 1099511627776" by (simp_all add: w_def w_small)
  define sec where "sec = d div 1000000000"
  define ns where "ns = d mod 1000000000"
  have dsplit: "d = 1000000000 * sec + ns" by (simp add: sec_def ns_def)
  have ns0: "0 \<le> ns" and ns1: "ns < 1000000000" by (simp_all add: ns_def)
  have sec0: "0 \<le> sec" using assms(1) by (simp add: sec_def pos_imp_zdiv_nonneg_iff)
  have "d \<le> 2 ^ 63 - 1" using assms(2) by simp
  then have "d div 1000000000 \<le> (2 ^ 63 - 1) div 1000000000" by (intro zdiv_mono1) simp_all
  then have sec1: "sec \<le> 9223372036" by (simp add: sec_def)
  have tq: "trunc_quot d second_ns = sec"
    using assms(1) by (simp add: trunc_quot_def second_ns_def sec_def)
  have tr: "trunc_rem d second_ns = ns"
    unfolding trunc_rem_def tq
    by (simp add: second_ns_def sec_def ns_def minus_mult_div_eq_mod)
  have A: "fin_nonneg (f64_of_int sec)" "valof (f64_of_int sec) = real_of_int sec"
    using f64_of_int_val [of sec] sec0 sec1 by simp_all
  have B: "fin_nonneg (f64_of_int ns)" "valof (f64_of_int ns) = real_of_int ns"
    using f64_of_int_val [of ns] ns0 ns1 by simp_all
  have Cv: "valof (f64_const 1000000000 1) = 1000000000"
    by (simp add: const_1e9 power_int_minus)
  define x where "x = real_of_int ns / 1000000000"
  have x0: "0 \<le> x" and x1: "x < 1" using ns0 ns1 by (simp_all add: x_def)
  define Y where "Y = f64_div (f64_of_int ns) (f64_const 1000000000 1)"
  have "x < 2 powi 1023" using x1 one_below_max by linarith
  then have lt: "valof (f64_of_int ns) / valof (f64_const 1000000000 1) < 2 powi 1023"
    by (simp only: B Cv x_def [symmetric])
  have cpos: "(0::int) < 8388608000000000" by simp
  note de = f64_div_err [OF B(1) const_1e9 cpos lt]
  have Y: "fin_nonneg Y" "\<bar>valof Y - x\<bar> \<le> x * u + w"
    using de
    unfolding Y_def [symmetric] B(2) Cv x_def [symmetric] u_def [symmetric] w_def [symmetric]
    by blast+
  have xu: "x * u \<le> x / 2"
    using mult_left_mono [OF uh x0] by simp
  have Ylo: "x / 2 - w \<le> valof Y" using Y(2) xu by linarith
  have Yhi: "valof Y \<le> 2" using Y(2) xu x1 x0 ws by linarith
  define xs where "xs = real_of_int sec + valof Y"
  have xs0: "0 \<le> xs" using sec0 valof_nonneg [OF Y(1)] by (simp add: xs_def)
  have xshi: "xs \<le> 9223372038" using sec1 Yhi by (simp add: xs_def)
  have "(9223372038::real) < 2 ^ 100" by simp
  then have "xs < 2 ^ 100" using xshi by linarith
  then have "xs < 2 powi 1023" using big_below_max by linarith
  then have lt2: "valof (f64_of_int sec) + valof Y < 2 powi 1023" by (simp only: A xs_def)
  note ad = f64_add_err [OF A(1) Y(1) lt2]
  have Sd: "Seconds d = f64_add (f64_of_int sec) Y"
    by (simp only: Seconds_def tq tr Y_def)
  have S: "fin_nonneg (Seconds d)" "\<bar>valof (Seconds d) - xs\<bar> \<le> xs * u + w"
    using ad
    unfolding Sd [symmetric] A(2) xs_def [symmetric] u_def [symmetric] w_def [symmetric]
    by blast+
  have xsu: "xs * u \<le> xs / 2"
    using mult_left_mono [OF uh xs0] by simp
  have "valof (Seconds d) \<le> xs + xs / 2 + w" using S(2) xsu by linarith
  then have hi: "valof (Seconds d) \<le> 68719476736"
    using xshi ws by linarith
  have dr: "real_of_int d = 1000000000 * real_of_int sec + real_of_int ns"
    using dsplit by simp
  have "1 \<le> real_of_int d" using assms(1) by simp
  then have "1 \<le> 1000000000 * real_of_int sec + real_of_int ns" by (simp only: dr)
  then have "1 / 1000000000 \<le> real_of_int sec + x"
    by (simp add: x_def field_simps)
  then have "1 / 2000000000 - w \<le> xs"
    using Ylo sec0 by (simp add: xs_def)
  then have lo: "1 / 17179869184 \<le> valof (Seconds d)"
    using S(2) xsu ws by linarith
  show ?thesis using S(1) lo hi by blast
qed


lemma roundtrip_bound:
  fixes x S T P u w :: real
  assumes x0: "0 \<le> x" and xu: "x * u \<le> 1 / 8"
    and S0: "0 < S" and wS: "w * S \<le> 1 / 8"
    and u0: "0 \<le> u" and u1: "u \<le> 1" and w0: "0 \<le> w" and w1: "w \<le> 1 / 8"
    and T: "\<bar>T - x / S\<bar> \<le> x / S * u + w"
  shows "T * S \<le> x + 1 / 4"
    and "\<bar>P - T * S\<bar> \<le> T * S * u + w \<Longrightarrow> P < x + 1"
proof -
  have xs: "x / S * S = x" using S0 by simp
  have T1: "T \<le> x / S + x / S * u + w" using T by linarith
  have "T * S \<le> (x / S + x / S * u + w) * S"
    using T1 S0 by (intro mult_right_mono) simp_all
  also have "\<dots> = x / S * S + x / S * S * u + w * S"
    by (simp add: algebra_simps)
  also have "\<dots> = x + x * u + w * S" by (simp only: xs)
  finally have TS: "T * S \<le> x + x * u + w * S" .
  show TS2: "T * S \<le> x + 1 / 4" using TS xu wS by linarith
  assume P: "\<bar>P - T * S\<bar> \<le> T * S * u + w"
  have "T * S * u \<le> (x + 1 / 4) * u"
    using TS2 u0 by (intro mult_right_mono) simp_all
  also have "\<dots> = x * u + u / 4" by (simp add: algebra_simps)
  also have "\<dots> \<le> 1 / 8 + 1 / 4" using xu u1 by linarith
  finally have TSu: "T * S * u \<le> 3 / 8" by simp
  have "P \<le> T * S + T * S * u + w" using P by linarith
  then have "P \<le> (x + 1 / 4) + 3 / 8 + 1 / 8" using TS2 TSu w1 by linarith
  then show "P < x + 1" by linarith
qed

lemma throughput_product:
  assumes "0 \<le> ins" "ins \<le> 2 ^ 50" "0 < d" "d < 2 ^ 63"
  shows "fin_nonneg (f64_mul (f64_div (f64_of_int ins) (Seconds d)) (Seconds d))
       \<and> valof (f64_mul (f64_div (f64_of_int ins) (Seconds d)) (Seconds d)) < real_of_int ins + 1"
proof -
  define u :: real where "u = 2 powi (- 53)"
  define w :: real where "w = 2 powi (- 1075)"
  have u0: "0 \<le> u" and uh: "u \<le> 1 / 2" by (simp_all add: u_def u_half)
  have w0: "0 \<le> w" and ws: "w \<le> 1 / 1099511627776" by (simp_all add: w_def w_small)
  define S where "S = Seconds d"
  have Sf: "fin_nonneg S" and Slo: "1 / 17179869184 \<le> valof S" and Shi: "valof S \<le> 68719476736"
    using Seconds_bounds [OF assms(3,4)] by (simp_all add: S_def)
  have S0: "0 < valof S" using Slo by linarith
  obtain ms es where Se: "S = Finite ms es" and "0 \<le> ms" using Sf by (rule fin_nonnegE)
  have mspos: "0 < ms"
  proof (rule ccontr)
    assume "\<not> 0 < ms"
    then have "ms = 0" using \<open>0 \<le> ms\<close> by simp
    then have "valof S = 0" by (simp add: Se)
    then show False using S0 by simp
  qed
  define x where "x = real_of_int ins"
  have x0: "0 \<le> x" using assms(1) by (simp add: x_def)
  have "real_of_int ins \<le> real_of_int (2 ^ 50)" using assms(2) by linarith
  then have x50: "x \<le> 1125899906842624" by (simp add: x_def)
  have I: "fin_nonneg (f64_of_int ins)" "valof (f64_of_int ins) = x"
    using f64_of_int_val [of ins] assms(1,2) by (simp_all add: x_def)
  have inv: "1 / valof S \<le> 17179869184"
    using Slo S0 by (simp add: field_simps)
  have "x / valof S = x * (1 / valof S)" by simp
  also have "\<dots> \<le> 1125899906842624 * 17179869184"
    using x50 inv x0 S0 by (intro mult_mono) simp_all
  also have "\<dots> < 2 ^ 100" by simp
  finally have "x / valof S < 2 powi 1023" using big_below_max by linarith
  then have lt: "valof (f64_of_int ins) / valof S < 2 powi 1023" by (simp only: I)
  define T where "T = f64_div (f64_of_int ins) S"
  note de = f64_div_err [OF I(1) Se mspos lt]
  have T: "fin_nonneg T" "\<bar>valof T - x / valof S\<bar> \<le> x / valof S * u + w"
    using de unfolding T_def [symmetric] I(2) u_def [symmetric] w_def [symmetric] by blast+
  have xu: "x * u \<le> 1 / 8"
  proof -
    have "x * u \<le> 1125899906842624 * u" using x50 u0 by (intro mult_right_mono) simp_all
    also have "\<dots> = 1 / 8" by (simp add: u_def power_int_minus)
    finally show ?thesis .
  qed
  have wS: "w * valof S \<le> 1 / 8"
  proof -
    have "w * valof S \<le> 1 / 1099511627776 * 68719476736"
      using ws Shi w0 S0 by (intro mult_mono) simp_all
    then show ?thesis by simp
  qed
  have u1: "u \<le> 1" using uh by linarith
  have w1: "w \<le> 1 / 8" using ws by linarith
  note rb = roundtrip_bound [OF x0 xu S0 wS u0 u1 w0 w1 T(2)]
  have "valof T * valof S < 2 ^ 100"
  proof -
    have "valof T * valof S \<le> 1125899906842624 + 1 / 4" using rb(1) x50 by linarith
    also have "\<dots> < 2 ^ 100" by simp
    finally show ?thesis .
  qed
  then have lt2: "valof T * valof S < 2 powi 1023" using big_below_max by linarith
  define P where "P = f64_mul T S"
  note me = f64_mul_err [OF T(1) Sf lt2]
  have P: "fin_nonneg P" "\<bar>valof P - valof T * valof S\<bar> \<le> valof T * valof S * u + w"
    using me unfolding P_def [symmetric] u_def [symmetric] w_def [symmetric] by blast+
  have "valof P < x + 1" using rb(2) [OF P(2)] .
  then show ?thesis using P(1) unfolding P_def T_def S_def x_def by blast
qed

section \<open>The throughput of an insert run\<close>


lemma events_inserted_nonneg: "0 \<le> events_inserted cs"
  unfolding events_inserted_def by (rule sum_list_nonneg) auto

lemma RunInsert_fields:
  assumes "RunInsert cl addDate ds sched duration r repo s = Returns (res, s')"
  shows "ir_Throughput res
           = f64_div (f64_of_int (events_inserted (insert_calls addDate ds sched r repo s (EventCount r))))
                     (Seconds duration)"
    and "ir_ErrorCount res = batches_failed (insert_calls addDate ds sched r repo s (EventCount r))"
    and "ir_TotalEvents res = EventCount r"
    and "ir_Duration res = duration"
proof -
  obtain i e where
    p: "parallelInsert cl addDate ds sched r repo s (EventCount r) = Returns (i, e, s')" and
    res: "res = \<lparr>ir_TotalEvents = EventCount r, ir_Duration = duration,
                  ir_Throughput = f64_div (f64_of_int i) (Seconds duration),
                  ir_ErrorCount = e, ir_BatchSize = BatchSize r, ir_WorkerCount = Workers r\<rparr>"
    using assms by (auto simp: RunInsert_def split: outcome.splits)
  note c = parallelInsert_counts [OF p]
  show "ir_Throughput res
           = f64_div (f64_of_int (events_inserted (insert_calls addDate ds sched r repo s (EventCount r))))
                     (Seconds duration)"
    using c by (simp add: res)
  show "ir_ErrorCount res = batches_failed (insert_calls addDate ds sched r repo s (EventCount r))"
    using c by (simp add: res)
  show "ir_TotalEvents res = EventCount r" by (simp add: res)
  show "ir_Duration res = duration" by (simp add: res)
qed

lemma product_below_total:
  assumes "0 \<le> ins" "ins < tot" "tot \<le> 2 ^ 50" "0 < d" "d < 2 ^ 63"
  shows "f64_less (f64_mul (f64_div (f64_of_int ins) (Seconds d)) (Seconds d)) (f64_of_int tot)"
proof -
  define P where "P = f64_mul (f64_div (f64_of_int ins) (Seconds d)) (Seconds d)"
  have i50: "ins \<le> 2 ^ 50" using assms(2,3) by linarith
  have P: "fin_nonneg P" "valof P < real_of_int ins + 1"
    using throughput_product [OF assms(1) i50 assms(4,5)] by (simp_all add: P_def)
  have t: "fin_nonneg (f64_of_int tot)" "valof (f64_of_int tot) = real_of_int tot"
    using f64_of_int_val [of tot] assms(1,2,3) by simp_all
  obtain mp ep where Pe: "P = Finite mp ep" using P(1) by (rule fin_nonnegE)
  obtain mt et where Te: "f64_of_int tot = Finite mt et" using t(1) by (rule fin_nonnegE)
  have "real_of_int ins + 1 \<le> real_of_int tot" using assms(2) by linarith
  then have "valof P < valof (f64_of_int tot)" using P(2) t(2) by linarith
  then have "f64_less P (f64_of_int tot)"
    unfolding Pe Te by (simp only: f64_less_valof)
  then show ?thesis by (simp only: P_def)
qed

lemma product_trunc:
  assumes "0 \<le> ins" "ins \<le> 2 ^ 50" "0 < d" "d < 2 ^ 63"
  shows "f64_to_int plat (f64_mul (f64_div (f64_of_int ins) (Seconds d)) (Seconds d)) \<le> ins"
proof -
  define P where "P = f64_mul (f64_div (f64_of_int ins) (Seconds d)) (Seconds d)"
  have P: "fin_nonneg P" "valof P < real_of_int ins + 1"
    using throughput_product [OF assms] by (simp_all add: P_def)
  obtain q k where Pe: "P = Finite q k" and q0: "0 \<le> q" using P(1) by (rule fin_nonnegE)
  have v: "real_of_int q * 2 powi k < real_of_int ins + 1" using P(2) by (simp add: Pe)
  have "real_of_int ins + 1 \<le> real_of_int (2 ^ 50) + 1" using assms(2) by linarith
  also have "\<dots> < 2 ^ 63" by simp
  finally have "real_of_int q * 2 powi k < 2 ^ 63" using v by linarith
  from f64_to_int_floor [OF q0 this, of plat]
  have "f64_to_int plat P = \<lfloor>real_of_int q * 2 powi k\<rfloor>" by (simp only: Pe)
  also have "\<dots> \<le> ins"
  proof -
    have "real_of_int q * 2 powi k < real_of_int (ins + 1)" using v by simp
    then have "\<lfloor>real_of_int q * 2 powi k\<rfloor> < ins + 1" by (simp only: floor_less_iff)
    then show ?thesis by simp
  qed
  finally show ?thesis by (simp only: P_def)
qed

text \<open>
  Claim C1. For every run of \<open>RunInsert\<close> that returns, \<open>Throughput\<close> is the number of
  events inserted divided by the seconds of the run, the \<open>float64\<close> quotient
  \<^verbatim>\<open>float64(inserted) / duration.Seconds()\<close>, where the events inserted are those of
  the batches whose \<open>InsertBatch\<close> call returned no error, and \<open>ErrorCount\<close> is the number
  of the calls that returned one. Every batch being received once (\<open>sched\<close> permutes the
  batches), a run with at least one failed batch has inserted fewer events than
  \<open>EventCount\<close>; then, for a positive duration and at most \<open>2 ^ 50\<close> events, throughput
  times duration, the \<open>float64\<close> product, is strictly less than \<open>TotalEvents\<close>, and so is
  its conversion to \<open>int64\<close>, which is what the test of the runner compares. The run
  returns whenever the batch size is positive and the channel of \<open>2 * Workers\<close> batches
  can be made.
\<close>

theorem C1_RunInsert_throughput:
  "(RunInsert cl addDate ds sched duration r repo s = Returns (res, s') \<longrightarrow>
      ir_Throughput res
        = f64_div (f64_of_int (events_inserted (insert_calls addDate ds sched r repo s (EventCount r))))
                  (Seconds duration)
      \<and> ir_ErrorCount res = batches_failed (insert_calls addDate ds sched r repo s (EventCount r))
      \<and> ir_TotalEvents res = EventCount r
      \<and> (1 \<le> BatchSize r
           \<and> mset (sched (batches_of (Generate addDate ds (New (EventCount r) (BatchSize r)))))
               = mset (batches_of (Generate addDate ds (New (EventCount r) (BatchSize r))))
           \<and> 0 < batches_failed (insert_calls addDate ds sched r repo s (EventCount r)) \<longrightarrow>
           events_inserted (insert_calls addDate ds sched r repo s (EventCount r)) < EventCount r
           \<and> (0 < duration \<and> duration < 2 ^ 63 \<and> EventCount r \<le> 2 ^ 50 \<longrightarrow>
                f64_less (f64_mul (ir_Throughput res) (Seconds duration))
                         (f64_of_int (ir_TotalEvents res))
                \<and> f64_to_int plat (f64_mul (ir_Throughput res) (Seconds duration))
                     < ir_TotalEvents res)))
   \<and> (1 \<le> BatchSize r \<and> BatchSize r \<le> 2 ^ 31 \<and> 0 \<le> Workers r
        \<and> Workers r * 2 \<le> cl \<and> cl < 2 ^ 63 \<longrightarrow>
        (\<exists>res s'. RunInsert cl addDate ds sched duration r repo s = Returns (res, s')))"
proof (intro conjI impI)
  assume run: "RunInsert cl addDate ds sched duration r repo s = Returns (res, s')"
  note f = RunInsert_fields [OF run]
  show "ir_Throughput res
        = f64_div (f64_of_int (events_inserted (insert_calls addDate ds sched r repo s (EventCount r))))
                  (Seconds duration)" by (rule f(1))
  show "ir_ErrorCount res = batches_failed (insert_calls addDate ds sched r repo s (EventCount r))"
    by (rule f(2))
  show "ir_TotalEvents res = EventCount r" by (rule f(3))
  assume h: "1 \<le> BatchSize r
           \<and> mset (sched (batches_of (Generate addDate ds (New (EventCount r) (BatchSize r)))))
               = mset (batches_of (Generate addDate ds (New (EventCount r) (BatchSize r))))
           \<and> 0 < batches_failed (insert_calls addDate ds sched r repo s (EventCount r))"
  show lt: "events_inserted (insert_calls addDate ds sched r repo s (EventCount r)) < EventCount r"
    using h by (intro insert_calls_total) simp_all
  assume t: "0 < duration \<and> duration < 2 ^ 63 \<and> EventCount r \<le> 2 ^ 50"
  have "f64_less (f64_mul (f64_div (f64_of_int (events_inserted (insert_calls addDate ds sched r repo s (EventCount r))))
                     (Seconds duration)) (Seconds duration)) (f64_of_int (EventCount r))"
    using t lt by (intro product_below_total events_inserted_nonneg) simp_all
  then show "f64_less (f64_mul (ir_Throughput res) (Seconds duration)) (f64_of_int (ir_TotalEvents res))"
    by (simp only: f(1) f(3))
  have "f64_to_int plat (f64_mul (f64_div (f64_of_int (events_inserted (insert_calls addDate ds sched r repo s (EventCount r))))
                     (Seconds duration)) (Seconds duration))
          \<le> events_inserted (insert_calls addDate ds sched r repo s (EventCount r))"
    using t lt by (intro product_trunc events_inserted_nonneg) simp_all
  then have "f64_to_int plat (f64_mul (f64_div (f64_of_int (events_inserted (insert_calls addDate ds sched r repo s (EventCount r))))
                     (Seconds duration)) (Seconds duration)) < EventCount r"
    using lt by linarith
  then show "f64_to_int plat (f64_mul (ir_Throughput res) (Seconds duration)) < ir_TotalEvents res"
    by (simp only: f(1) f(3))
next
  assume "1 \<le> BatchSize r \<and> BatchSize r \<le> 2 ^ 31 \<and> 0 \<le> Workers r
        \<and> Workers r * 2 \<le> cl \<and> cl < 2 ^ 63"
  then have h: "1 \<le> BatchSize r" "0 \<le> Workers r" "Workers r * 2 \<le> cl" "cl < 2 ^ 63"
    by simp_all
  from parallelInsert_returns [OF h, of addDate ds sched repo s "EventCount r"]
  obtain i e s' where
    "parallelInsert cl addDate ds sched r repo s (EventCount r) = Returns (i, e, s')"
    by blast
  then show "\<exists>res s'. RunInsert cl addDate ds sched duration r repo s = Returns (res, s')"
    by (simp add: RunInsert_def)
qed


text \<open>
  The run of \<open>TestRunInsertWithErrors\<close>: 100 events in batches of 10, every second call
  of \<open>InsertBatch\<close> fails, the run takes 1.5 ms. Five batches fail, 50 events are
  inserted.
\<close>

lemma insert_calls_every_2nd:
  "map (\<lambda>c. (length (fst c), snd c))
     (insert_calls addDate24 (\<lambda>k. draw0) id test_runner (mockRepository every_2nd) 0
        (EventCount test_runner))
     = [(10, False), (10, True), (10, False), (10, True), (10, False),
        (10, True), (10, False), (10, True), (10, False), (10, True)]"
  by (simp add: insert_calls_def test_runner_def Generate_def New_def
      Generate_loop.simps batches_of_def make_batch_def Let_def mockRepository_def every_2nd_def)

theorem C1_RunInsert_throughput_witness:
  "(1 \<le> BatchSize test_runner \<and> BatchSize test_runner \<le> 2 ^ 31 \<and> 0 \<le> Workers test_runner
      \<and> Workers test_runner * 2 \<le> chan_limit_amd64 \<and> chan_limit_amd64 < 2 ^ 63)
   \<and> (0 < (1500000 :: int) \<and> (1500000 :: int) < 2 ^ 63 \<and> EventCount test_runner \<le> 2 ^ 50)
   \<and> batches_failed (insert_calls addDate24 (\<lambda>k. draw0) id test_runner
         (mockRepository every_2nd) 0 (EventCount test_runner)) = 5
   \<and> events_inserted (insert_calls addDate24 (\<lambda>k. draw0) id test_runner
         (mockRepository every_2nd) 0 (EventCount test_runner)) = 50
   \<and> (\<exists>res s'. RunInsert chan_limit_amd64 addDate24 (\<lambda>k. draw0) id 1500000 test_runner
                   (mockRepository every_2nd) 0 = Returns (res, s')
        \<and> ir_Throughput res = f64_div (f64_of_int 50) (Seconds 1500000)
        \<and> ir_ErrorCount res = 5
        \<and> ir_TotalEvents res = 100
        \<and> f64_less (f64_mul (ir_Throughput res) (Seconds 1500000)) (f64_of_int 100)
        \<and> f64_to_int plat_amd64 (f64_mul (ir_Throughput res) (Seconds 1500000)) < 100)"
proof -
  let ?C = "insert_calls addDate24 (\<lambda>k. draw0) id test_runner (mockRepository every_2nd) 0
              (EventCount test_runner)"
  have cfg: "1 \<le> BatchSize test_runner \<and> BatchSize test_runner \<le> 2 ^ 31 \<and> 0 \<le> Workers test_runner
      \<and> Workers test_runner * 2 \<le> chan_limit_amd64 \<and> chan_limit_amd64 < 2 ^ 63"
    by (simp add: test_runner_def chan_limit_amd64_def)
  have dur: "0 < (1500000 :: int) \<and> (1500000 :: int) < 2 ^ 63 \<and> EventCount test_runner \<le> 2 ^ 50"
    by (simp add: test_runner_def)
  have ms: "map snd ?C = map snd (map (\<lambda>c. (length (fst c), snd c)) ?C)"
    by (simp add: comp_def)
  have "batches_failed ?C = int (length (filter id (map snd ?C)))"
    by (rule batches_failed_map)
  also have "\<dots> = 5"
    unfolding ms insert_calls_every_2nd by simp
  finally have fb: "batches_failed ?C = 5" .
  have ib: "events_inserted ?C = 50"
    by (simp add: events_inserted_map insert_calls_every_2nd)
  have tot: "EventCount test_runner = 100" by (simp add: test_runner_def)
  note t = C1_RunInsert_throughput [where cl = chan_limit_amd64 and addDate = addDate24
      and ds = "\<lambda>k. draw0" and sched = id and r = test_runner and duration = 1500000
      and repo = "mockRepository every_2nd" and s = 0 and plat = plat_amd64]
  obtain res s' where
    run: "RunInsert chan_limit_amd64 addDate24 (\<lambda>k. draw0) id 1500000 test_runner
            (mockRepository every_2nd) 0 = Returns (res, s')"
    using t cfg by blast
  have hyp: "1 \<le> BatchSize test_runner
       \<and> mset (id (batches_of (Generate addDate24 (\<lambda>k. draw0)
                     (New (EventCount test_runner) (BatchSize test_runner)))))
           = mset (batches_of (Generate addDate24 (\<lambda>k. draw0)
                     (New (EventCount test_runner) (BatchSize test_runner))))
       \<and> 0 < batches_failed ?C"
    using cfg fb by simp
  from t [of res s'] run hyp dur
  have c: "ir_Throughput res = f64_div (f64_of_int (events_inserted ?C)) (Seconds 1500000)"
      "ir_ErrorCount res = batches_failed ?C"
      "ir_TotalEvents res = EventCount test_runner"
      "f64_less (f64_mul (ir_Throughput res) (Seconds 1500000)) (f64_of_int (ir_TotalEvents res))"
      "f64_to_int plat_amd64 (f64_mul (ir_Throughput res) (Seconds 1500000)) < ir_TotalEvents res"
    by blast+
  have r1: "ir_Throughput res = f64_div (f64_of_int 50) (Seconds 1500000)"
    using c(1) by (simp only: ib)
  have r2: "ir_ErrorCount res = 5" using c(2) by (simp only: fb)
  have r3: "ir_TotalEvents res = 100" using c(3) by (simp only: tot)
  have r4: "f64_less (f64_mul (ir_Throughput res) (Seconds 1500000)) (f64_of_int 100)"
    using c(4) by (simp only: r3)
  have r5: "f64_to_int plat_amd64 (f64_mul (ir_Throughput res) (Seconds 1500000)) < 100"
    using c(5) by (simp only: r3)
  have ex: "\<exists>res s'. RunInsert chan_limit_amd64 addDate24 (\<lambda>k. draw0) id 1500000 test_runner
                   (mockRepository every_2nd) 0 = Returns (res, s')
        \<and> ir_Throughput res = f64_div (f64_of_int 50) (Seconds 1500000)
        \<and> ir_ErrorCount res = 5
        \<and> ir_TotalEvents res = 100
        \<and> f64_less (f64_mul (ir_Throughput res) (Seconds 1500000)) (f64_of_int 100)
        \<and> f64_to_int plat_amd64 (f64_mul (ir_Throughput res) (Seconds 1500000)) < 100"
    apply (rule exI [of _ res], rule exI [of _ s'])
    apply (intro conjI)
    apply (rule run, rule r1, rule r2, rule r3, rule r4, rule r5)
    done
  show ?thesis
    apply (rule conjI, rule cfg)
    apply (rule conjI, rule dur)
    apply (rule conjI, rule fb)
    apply (rule conjI, rule ib)
    apply (rule ex)
    done
qed

section \<open>The timing of WaitReady\<close>

lemma poll_interval_pos: "0 < poll_interval"
  by (simp add: poll_interval_def second_ns_def)

lemma now_tick_sync: "wr_now (tick_sync st) = wr_now st"
  by (simp add: tick_sync_def)

lemma probes_tick_sync: "probes (tick_sync st) = probes st"
  by (simp add: tick_sync_def)

lemma ready_after_wait:
  "ready env D (tick_sync (st\<lparr>wr_now := next_event env D st\<rparr>)) \<noteq> []"
  by (auto simp: ready_def tick_sync_def next_event_def cancelled_def Let_def min_def
      split: option.splits if_splits)

lemma select_case_ready:
  assumes "select_case env D st = (c, st1)"
  shows "c \<in> set (ready env D st1)"
proof -
  define st0 where "st0 = (if ready env D st = []
                 then tick_sync (st\<lparr>wr_now := next_event env D st\<rparr>) else st)"
  have ne: "ready env D st0 \<noteq> []"
    using ready_after_wait [of env D st] by (simp add: st0_def)
  have c: "c = ready env D st0 ! (pick env (selects st0) mod length (ready env D st0))"
    and s: "st1 = st0\<lparr>selects := selects st0 + 1\<rparr>"
    using assms by (simp_all add: select_case_def Let_def st0_def)
  have "ready env D st1 = ready env D st0" by (simp add: s ready_def)
  moreover have "c \<in> set (ready env D st0)"
    unfolding c using ne by (intro nth_mem) simp
  ultimately show ?thesis by simp
qed

lemma select_case_props:
  assumes "select_case env D st = (c, st1)"
  shows "c = DeadlineFired \<Longrightarrow> D \<le> wr_now st1"
    and "c = Tick \<Longrightarrow> pending st1"
    and "c = CtxDone \<Longrightarrow> cancelled env (wr_now st1)"
  using select_case_ready [OF assms]
  by (auto simp: ready_def split: if_splits)

lemma select_case_probes:
  assumes "select_case env D st = (c, st1)"
  shows "probes st1 = probes st"
  using assms by (auto simp: select_case_def Let_def probes_tick_sync split: if_splits)


lemma wr_inv_tick_sync: "wr_inv g st \<Longrightarrow> wr_inv g (tick_sync st)"
proof -
  assume i: "wr_inv g st"
  show ?thesis
  proof (cases "next_tick st \<le> wr_now st")
    case False
    then show ?thesis using i by (simp add: tick_sync_def)
  next
    case True
    then have "0 \<le> (wr_now st - next_tick st) div poll_interval"
      using poll_interval_pos by (simp add: pos_imp_zdiv_nonneg_iff)
    then have "0 \<le> poll_interval * ((wr_now st - next_tick st) div poll_interval + 1)"
      using poll_interval_pos by simp
    then show ?thesis using i True by (simp add: tick_sync_def wr_inv_def)
  qed
qed

lemma wr_inv_select:
  assumes "wr_inv g st" "select_case env D st = (c, st1)"
  shows "wr_inv g st1"
proof (cases "ready env D st = []")
  case False
  then have "st1 = st\<lparr>selects := selects st + 1\<rparr>"
    using assms(2) by (simp add: select_case_def Let_def)
  then show ?thesis using assms(1) by (simp add: wr_inv_def)
next
  case True
  then have np: "\<not> pending st" by (auto simp: ready_def split: if_splits)
  have "wr_inv g (st\<lparr>wr_now := next_event env D st\<rparr>)"
    using assms(1) np by (simp add: wr_inv_def)
  then have "wr_inv g (tick_sync (st\<lparr>wr_now := next_event env D st\<rparr>))"
    by (rule wr_inv_tick_sync)
  moreover have "st1 = (tick_sync (st\<lparr>wr_now := next_event env D st\<rparr>))
                         \<lparr>selects := selects (tick_sync (st\<lparr>wr_now := next_event env D st\<rparr>)) + 1\<rparr>"
    using assms(2) True by (simp add: select_case_def Let_def)
  ultimately show ?thesis by (simp add: wr_inv_def)
qed

lemma wr_inv_probe:
  assumes "wr_inv g st1" "pending st1"
  shows "wr_inv g (tick_sync (st1\<lparr>pending := False, probes := probes st1 @ [wr_now st1],
                                 wr_now := wr_now st1 + max 0 d\<rparr>))"
proof -
  have "wr_inv g (st1\<lparr>pending := False, probes := probes st1 @ [wr_now st1],
                      wr_now := wr_now st1 + max 0 d\<rparr>)"
    using assms by (simp add: wr_inv_def)
  then show ?thesis by (rule wr_inv_tick_sync)
qed

lemma WaitReady_loop_inv:
  assumes "WaitReady_loop fuel env svc D st = Some (x, st')" "wr_inv g st"
  shows "wr_inv g st'"
  using assms
proof (induction fuel arbitrary: st)
  case 0
  then show ?case by simp
next
  case (Suc fuel)
  obtain c st1 where sc: "select_case env D st = (c, st1)" by (cases "select_case env D st")
  have i1: "wr_inv g st1" using Suc.prems(2) sc by (rule wr_inv_select)
  show ?case
  proof (cases c)
    case CtxDone
    then show ?thesis using Suc.prems(1) sc i1 by simp
  next
    case DeadlineFired
    then show ?thesis using Suc.prems(1) sc i1 by simp
  next
    case Tick
    have p: "pending st1" using sc Tick by (intro select_case_props(2))
    obtain d ok where pr: "probe env (length (probes st1)) = (d, ok)"
      by (cases "probe env (length (probes st1))")
    define st2 where "st2 = tick_sync (st1\<lparr>pending := False, probes := probes st1 @ [wr_now st1],
                                 wr_now := wr_now st1 + max 0 d\<rparr>)"
    have i2: "wr_inv g st2" unfolding st2_def using i1 p by (rule wr_inv_probe)
    show ?thesis
    proof (cases "ReadyCheck svc = []")
      case True
      then show ?thesis using Suc.prems(1) sc Tick i1 by simp
    next
      case False
      show ?thesis
      proof (cases ok)
        case True
        then have "st' = st2"
          using Suc.prems(1) sc Tick False pr by (simp add: st2_def Let_def)
        then show ?thesis using i2 by simp
      next
        case f: False
        then have "WaitReady_loop fuel env svc D st2 = Some (x, st')"
          using Suc.prems(1) sc Tick False pr by (simp add: st2_def Let_def)
        then show ?thesis using i2 by (rule Suc.IH)
      qed
    qed
  qed
qed

lemma WaitReady_loop_result:
  assumes "WaitReady_loop fuel env svc D st = Some (x, st')"
  shows "(\<forall>msg. x = Returns (Some (TimeoutErr msg)) \<longrightarrow>
            D \<le> wr_now st' \<and> msg = Name svc @ '': readiness timeout after 60s'')
       \<and> (x = Returns (Some ContextErr) \<longrightarrow> cancelled env (wr_now st'))
       \<and> ((\<forall>k. \<not> snd (probe env k)) \<longrightarrow> x \<noteq> Returns None)"
  using assms
proof (induction fuel arbitrary: st)
  case 0
  then show ?case by simp
next
  case (Suc fuel)
  obtain c st1 where sc: "select_case env D st = (c, st1)" by (cases "select_case env D st")
  show ?case
  proof (cases c)
    case CtxDone
    then have "x = Returns (Some ContextErr)" "st' = st1" using Suc.prems sc by simp_all
    then show ?thesis using select_case_props(3) [OF sc CtxDone] by simp
  next
    case DeadlineFired
    then have "x = Returns (Some (TimeoutErr (Name svc @ '': readiness timeout after 60s'')))"
      "st' = st1" using Suc.prems sc by simp_all
    then show ?thesis using select_case_props(1) [OF sc DeadlineFired] by simp
  next
    case Tick
    obtain d ok where pr: "probe env (length (probes st1)) = (d, ok)"
      by (cases "probe env (length (probes st1))")
    define st2 where "st2 = tick_sync (st1\<lparr>pending := False, probes := probes st1 @ [wr_now st1],
                                 wr_now := wr_now st1 + max 0 d\<rparr>)"
    show ?thesis
    proof (cases "ReadyCheck svc = []")
      case True
      then have "x = Panics" using Suc.prems sc Tick by simp
      then show ?thesis by simp
    next
      case False
      show ?thesis
      proof (cases ok)
        case True
        then have "x = Returns None"
          using Suc.prems sc Tick False pr by (simp add: st2_def Let_def)
        moreover have "snd (probe env (length (probes st1)))" using pr True by simp
        ultimately show ?thesis by auto
      next
        case f: False
        then have "WaitReady_loop fuel env svc D st2 = Some (x, st')"
          using Suc.prems sc Tick False pr by (simp add: st2_def Let_def)
        then show ?thesis by (rule Suc.IH)
      qed
    qed
  qed
qed


lemma select_deadline_now:
  assumes "cancel_at env = None" "D \<le> t"
  shows "select_case env D \<lparr>wr_now = t, pending = False, next_tick = nt, probes = ps, selects = s\<rparr>
           = (DeadlineFired, \<lparr>wr_now = t, pending = False, next_tick = nt, probes = ps, selects = s + 1\<rparr>)"
  using assms by (simp add: select_case_def ready_def cancelled_def Let_def)

lemma tick_sync_at_tick:
  "tick_sync \<lparr>wr_now = nt, pending = False, next_tick = nt, probes = ps, selects = s\<rparr>
     = \<lparr>wr_now = nt, pending = True, next_tick = nt + poll_interval, probes = ps, selects = s\<rparr>"
  by (simp add: tick_sync_def)

lemma select_wait_tick:
  assumes "cancel_at env = None" "t < nt" "nt < D"
  shows "select_case env D \<lparr>wr_now = t, pending = False, next_tick = nt, probes = ps, selects = s\<rparr>
           = (Tick, \<lparr>wr_now = nt, pending = True, next_tick = nt + poll_interval, probes = ps,
                     selects = s + 1\<rparr>)"
proof -
  have r: "ready env D \<lparr>wr_now = t, pending = False, next_tick = nt, probes = ps, selects = s\<rparr> = []"
    using assms by (simp add: ready_def cancelled_def)
  have n: "next_event env D \<lparr>wr_now = t, pending = False, next_tick = nt, probes = ps, selects = s\<rparr> = nt"
    using assms by (simp add: next_event_def Let_def)
  have r2: "ready env D \<lparr>wr_now = nt, pending = True, next_tick = nt + poll_interval, probes = ps,
                          selects = s\<rparr> = [Tick]"
    using assms by (simp add: ready_def cancelled_def)
  show ?thesis
    by (simp add: select_case_def r n tick_sync_at_tick r2 Let_def)
qed

lemma select_wait_both:
  assumes "cancel_at env = None" "t < nt" "nt = D"
  shows "select_case env D \<lparr>wr_now = t, pending = False, next_tick = nt, probes = ps, selects = s\<rparr>
           = (if pick env s mod 2 = 0 then DeadlineFired else Tick,
              \<lparr>wr_now = nt, pending = True, next_tick = nt + poll_interval, probes = ps,
                selects = s + 1\<rparr>)"
proof -
  have r: "ready env D \<lparr>wr_now = t, pending = False, next_tick = nt, probes = ps, selects = s\<rparr> = []"
    using assms by (simp add: ready_def cancelled_def)
  have n: "next_event env D \<lparr>wr_now = t, pending = False, next_tick = nt, probes = ps, selects = s\<rparr> = nt"
    using assms by (simp add: next_event_def Let_def)
  have r2: "ready env D \<lparr>wr_now = nt, pending = True, next_tick = nt + poll_interval, probes = ps,
                          selects = s\<rparr> = [DeadlineFired, Tick]"
    using assms by (simp add: ready_def cancelled_def)
  have sel: "select_case env D \<lparr>wr_now = t, pending = False, next_tick = nt, probes = ps, selects = s\<rparr>
           = ([DeadlineFired, Tick] ! (pick env s mod 2),
              \<lparr>wr_now = nt, pending = True, next_tick = nt + poll_interval, probes = ps,
                selects = s + 1\<rparr>)"
    by (simp add: select_case_def r n tick_sync_at_tick r2 Let_def numeral_2_eq_2)
  have "pick env s mod 2 = 0 \<or> pick env s mod 2 = 1" by arith
  then show ?thesis
  proof
    assume z: "pick env s mod 2 = 0"
    show ?thesis unfolding sel z by simp
  next
    assume z: "pick env s mod 2 = 1"
    show ?thesis unfolding sel z by simp
  qed
qed

lemma probe_step:
  assumes "0 \<le> d" "d < poll_interval"
  shows "tick_sync (\<lparr>wr_now = nt, pending = True, next_tick = nt + poll_interval, probes = ps,
                     selects = s\<rparr>\<lparr>pending := False, probes := ps @ [nt], wr_now := nt + max 0 d\<rparr>)
           = \<lparr>wr_now = nt + d, pending = False, next_tick = nt + poll_interval,
               probes = ps @ [nt], selects = s\<rparr>"
  using assms by (simp add: tick_sync_def)


lemma WaitReady_loop_fast:
  assumes nc: "cancel_at env = None" and rc: "ReadyCheck svc \<noteq> []"
    and pr: "\<forall>k. 0 \<le> fst (probe env k) \<and> fst (probe env k) < poll_interval \<and> \<not> snd (probe env k)"
    and D: "D = g + int m * poll_interval"
    and km: "k \<le> m" and t1: "t < tick_time g k" and t2: "k = m \<longrightarrow> D \<le> t"
    and fl: "m - k + 1 \<le> fuel"
  shows "\<exists>st' n. WaitReady_loop fuel env svc D
                   \<lparr>wr_now = t, pending = False, next_tick = tick_time g k,
                     probes = map (tick_time g) [0..<k], selects = s\<rparr>
                 = Some (Returns (Some (TimeoutErr (Name svc @ '': readiness timeout after 60s''))), st')
           \<and> D \<le> wr_now st' \<and> wr_now st' < D + poll_interval
           \<and> probes st' = map (tick_time g) [0..<n] \<and> (n + 1 = m \<or> n = m)"
  using km t1 t2 fl
proof (induction fuel arbitrary: k t s)
  case 0
  then show ?case by simp
next
  case (Suc fuel)
  let ?st = "\<lparr>wr_now = t, pending = False, next_tick = tick_time g k,
               probes = map (tick_time g) [0..<k], selects = s\<rparr>"
  let ?msg = "Name svc @ '': readiness timeout after 60s''"
  have Dm: "D + poll_interval = tick_time g m" by (simp add: D tick_time_def algebra_simps)
  show ?case
  proof (cases "k = m")
    case True
    then have Dt: "D \<le> t" using Suc.prems(3) by simp
    have sc: "select_case env D ?st
                = (DeadlineFired, ?st\<lparr>selects := s + 1\<rparr>)"
      using select_deadline_now [OF nc Dt] by simp
    have "WaitReady_loop (Suc fuel) env svc D ?st
            = Some (Returns (Some (TimeoutErr ?msg)), ?st\<lparr>selects := s + 1\<rparr>)"
      by (simp add: sc)
    moreover have "D \<le> wr_now (?st\<lparr>selects := s + 1\<rparr>)" using Dt by simp
    moreover have "wr_now (?st\<lparr>selects := s + 1\<rparr>) < D + poll_interval"
      using Suc.prems(2) True by (simp add: Dm)
    moreover have "probes (?st\<lparr>selects := s + 1\<rparr>) = map (tick_time g) [0..<m]"
      using True by simp
    ultimately show ?thesis by blast
  next
    case False
    then have klt: "k < m" using Suc.prems(1) by simp
    obtain d where pk: "probe env k = (d, False)" and d0: "0 \<le> d" and d1: "d < poll_interval"
      using pr by (cases "probe env k") (metis fst_conv snd_conv)
    let ?w = "\<lparr>wr_now = tick_time g k, pending = True, next_tick = tick_time g k + poll_interval,
                probes = map (tick_time g) [0..<k], selects = s + 1\<rparr>"
    let ?h = "\<lparr>wr_now = tick_time g k + d, pending = False, next_tick = tick_time g (Suc k),
                probes = map (tick_time g) [0..<Suc k], selects = s + 1\<rparr>"
    have nt: "tick_time g k + poll_interval = tick_time g (Suc k)"
      by (simp add: tick_time_def algebra_simps)
    have st2: "tick_sync (?w\<lparr>pending := False, probes := probes ?w @ [wr_now ?w],
                             wr_now := wr_now ?w + max 0 d\<rparr>) = ?h"
      using probe_step [OF d0 d1, of "tick_time g k" "map (tick_time g) [0..<k]" "s + 1"]
      by (simp add: nt)
    have tick_run: "(case (Tick, ?w) of
        (CtxDone, st1) \<Rightarrow> Some (Returns (Some ContextErr), st1)
      | (DeadlineFired, st1) \<Rightarrow> Some (Returns (Some (TimeoutErr ?msg)), st1)
      | (Tick, st1) \<Rightarrow>
          (if ReadyCheck svc = [] then Some (Panics, st1)
           else (case probe env (length (probes st1)) of
                   (d, ok) \<Rightarrow>
                     (let st2 = tick_sync (st1\<lparr>pending := False,
                                              probes := probes st1 @ [wr_now st1],
                                              wr_now := wr_now st1 + max 0 d\<rparr>)
                      in if ok then Some (Returns None, st2)
                         else WaitReady_loop fuel env svc D st2))))
       = WaitReady_loop fuel env svc D ?h"
      using rc pk st2 by (simp add: Let_def)
    have hlt: "tick_time g k + d < tick_time g (Suc k)"
      using d1 by (simp add: nt [symmetric])
    show ?thesis
    proof (cases "Suc k = m")
      case sk: False
      then have k2: "Suc k < m" using klt by simp
      have "int (Suc k) + 1 \<le> int m" using k2 by simp
      then have "(int k + 1) * poll_interval < int m * poll_interval"
        using poll_interval_pos k2 by simp
      then have lt: "tick_time g k < D" by (simp add: D tick_time_def)
      have sc: "select_case env D ?st = (Tick, ?w)"
        using select_wait_tick [OF nc Suc.prems(2) lt] by simp
      have unf: "WaitReady_loop (Suc fuel) env svc D ?st = WaitReady_loop fuel env svc D ?h"
        using tick_run by (simp only: WaitReady_loop.simps sc)
      have "\<exists>st' n. WaitReady_loop fuel env svc D ?h
                 = Some (Returns (Some (TimeoutErr ?msg)), st')
           \<and> D \<le> wr_now st' \<and> wr_now st' < D + poll_interval
           \<and> probes st' = map (tick_time g) [0..<n] \<and> (n + 1 = m \<or> n = m)"
        using k2 hlt Suc.prems(4) by (intro Suc.IH) simp_all
      then show ?thesis by (simp only: unf)
    next
      case sk: True
      have eq: "tick_time g k = D" using sk by (auto simp: D tick_time_def)
      have sc: "select_case env D ?st
                  = (if pick env s mod 2 = 0 then DeadlineFired else Tick, ?w)"
        using select_wait_both [OF nc Suc.prems(2) eq] by simp
      show ?thesis
      proof (cases "pick env s mod 2 = 0")
        case True
        then have "WaitReady_loop (Suc fuel) env svc D ?st
                     = Some (Returns (Some (TimeoutErr ?msg)), ?w)"
          by (simp add: sc)
        moreover have "D \<le> wr_now ?w" by (simp add: eq)
        moreover have "wr_now ?w < D + poll_interval" using poll_interval_pos by (simp add: eq)
        moreover have "probes ?w = map (tick_time g) [0..<k]" by simp
        moreover have "k + 1 = m" using sk by simp
        ultimately show ?thesis by blast
      next
        case False
        then have sc2: "select_case env D ?st = (Tick, ?w)" by (simp add: sc)
        have unf: "WaitReady_loop (Suc fuel) env svc D ?st = WaitReady_loop fuel env svc D ?h"
          using tick_run by (simp only: WaitReady_loop.simps sc2)
        have "D \<le> tick_time g k + d" using d0 by (simp add: eq)
        then have "\<exists>st' n. WaitReady_loop fuel env svc D ?h
                 = Some (Returns (Some (TimeoutErr ?msg)), st')
           \<and> D \<le> wr_now st' \<and> wr_now st' < D + poll_interval
           \<and> probes st' = map (tick_time g) [0..<n] \<and> (n + 1 = m \<or> n = m)"
          using sk hlt Suc.prems(4) by (intro Suc.IH) simp_all
        then show ?thesis by (simp only: unf)
      qed
    qed
  qed
qed


lemma never_ready_run:
  "WaitReady 40 never_ready test_service
     = Some (Returns (Some (TimeoutErr ''postgres: readiness timeout after 60s'')),
             \<lparr>wr_now = 65000000000, pending = True, next_tick = 67000000000,
               probes = [7000000000, 9000000000, 11000000000, 13000000000, 15000000000,
  17000000000, 19000000000, 21000000000, 23000000000, 25000000000,
  27000000000, 29000000000, 31000000000, 33000000000, 35000000000,
  37000000000, 39000000000, 41000000000, 43000000000, 45000000000,
  47000000000, 49000000000, 51000000000, 53000000000, 55000000000,
  57000000000, 59000000000, 61000000000, 63000000000], selects = 31\<rparr>)"
  by (simp add: WaitReady_def never_ready_def test_service_def wr_start_def grace_def
      readiness_deadline_def poll_interval_def second_ns_def millisecond_ns_def
      select_case_def ready_def cancelled_def next_event_def tick_sync_def Let_def
      eval_nat_numeral)


lemma wr_inv_start: "wr_inv g (wr_start g)"
  by (simp add: wr_inv_def wr_start_def)

lemma deadline_ticks: "grace + readiness_deadline = grace + int 30 * poll_interval"
  by (simp add: readiness_deadline_def poll_interval_def)

lemma WaitReady_cases:
  assumes "WaitReady fuel env svc = Some (x, st)"
  shows "(x = Returns (Some ContextErr) \<and> probes st = [] \<and> cancel_at env \<noteq> None)
       \<or> WaitReady_loop fuel env svc (grace + readiness_deadline) (wr_start grace) = Some (x, st)"
  using assms by (auto simp: WaitReady_def wr_start_def split: option.splits if_splits)

text \<open>
  Claim C9, as the code has it. Whatever the context, the readiness checks and the
  choices of \<open>select\<close> are: no readiness check is started before the grace delay and the
  first tick have passed (7 s after the call); when no readiness check succeeds,
  \<open>WaitReady\<close> does not return success; and the error of the timeout is returned 65 s
  after the call at the earliest, the grace delay and the deadline together, since the
  timer of the deadline is started when the grace delay is over. When the context is
  not cancelled and every readiness check fails within less than the polling interval,
  \<open>WaitReady\<close> returns the error of the timeout, at least 65 s and less than 67 s after
  the call (the grace delay, the deadline and one polling interval), and the readiness
  checks were started at the ticks, 2 s apart; there were 29 or 30 of them.
\<close>

theorem C9_WaitReady_timeout:
  "(WaitReady fuel env svc = Some (x, st) \<longrightarrow>
       (\<forall>p \<in> set (probes st). grace + poll_interval \<le> p)
     \<and> ((\<forall>k. \<not> snd (probe env k)) \<longrightarrow> x \<noteq> Returns None)
     \<and> (\<forall>msg. x = Returns (Some (TimeoutErr msg)) \<longrightarrow>
           grace + readiness_deadline \<le> wr_now st
           \<and> msg = Name svc @ '': readiness timeout after 60s''))
   \<and> (cancel_at env = None \<and> ReadyCheck svc \<noteq> []
        \<and> (\<forall>k. 0 \<le> fst (probe env k) \<and> fst (probe env k) < poll_interval
                 \<and> \<not> snd (probe env k))
        \<and> 31 \<le> fuel \<longrightarrow>
        (\<exists>st n. WaitReady fuel env svc
                   = Some (Returns (Some (TimeoutErr (Name svc @ '': readiness timeout after 60s''))), st)
           \<and> grace + readiness_deadline \<le> wr_now st
           \<and> wr_now st < grace + readiness_deadline + poll_interval
           \<and> probes st = map (tick_time grace) [0..<n] \<and> (n = 29 \<or> n = 30)))"
proof (rule conjI)
  show "WaitReady fuel env svc = Some (x, st) \<longrightarrow>
       (\<forall>p \<in> set (probes st). grace + poll_interval \<le> p)
     \<and> ((\<forall>k. \<not> snd (probe env k)) \<longrightarrow> x \<noteq> Returns None)
     \<and> (\<forall>msg. x = Returns (Some (TimeoutErr msg)) \<longrightarrow>
           grace + readiness_deadline \<le> wr_now st
           \<and> msg = Name svc @ '': readiness timeout after 60s'')"
  proof (rule impI)
  assume r: "WaitReady fuel env svc = Some (x, st)"
  from WaitReady_cases [OF r]
  consider (early) "x = Returns (Some ContextErr)" "probes st = []"
    | (loop) "WaitReady_loop fuel env svc (grace + readiness_deadline) (wr_start grace) = Some (x, st)"
    by blast
  note cs = this
  have P1: "\<forall>p \<in> set (probes st). grace + poll_interval \<le> p"
  proof (cases rule: cs)
    case early
    then show ?thesis by simp
  next
    case loop
    from WaitReady_loop_inv [OF loop wr_inv_start]
    show ?thesis by (simp add: wr_inv_def)
  qed
  have P2: "(\<forall>k. \<not> snd (probe env k)) \<longrightarrow> x \<noteq> Returns None"
  proof (cases rule: cs)
    case early
    then show ?thesis by simp
  next
    case loop
    from WaitReady_loop_result [OF loop] show ?thesis by blast
  qed
  have P3: "\<forall>msg. x = Returns (Some (TimeoutErr msg)) \<longrightarrow>
           grace + readiness_deadline \<le> wr_now st
           \<and> msg = Name svc @ '': readiness timeout after 60s''"
  proof (cases rule: cs)
    case early
    then show ?thesis by simp
  next
    case loop
    from WaitReady_loop_result [OF loop] show ?thesis by blast
  qed
  show "(\<forall>p \<in> set (probes st). grace + poll_interval \<le> p)
     \<and> ((\<forall>k. \<not> snd (probe env k)) \<longrightarrow> x \<noteq> Returns None)
     \<and> (\<forall>msg. x = Returns (Some (TimeoutErr msg)) \<longrightarrow>
           grace + readiness_deadline \<le> wr_now st
           \<and> msg = Name svc @ '': readiness timeout after 60s'')"
    using P1 P2 P3 by (intro conjI)
  qed
next
  show "cancel_at env = None \<and> ReadyCheck svc \<noteq> []
        \<and> (\<forall>k. 0 \<le> fst (probe env k) \<and> fst (probe env k) < poll_interval
                 \<and> \<not> snd (probe env k))
        \<and> 31 \<le> fuel \<longrightarrow>
        (\<exists>st n. WaitReady fuel env svc
                   = Some (Returns (Some (TimeoutErr (Name svc @ '': readiness timeout after 60s''))), st)
           \<and> grace + readiness_deadline \<le> wr_now st
           \<and> wr_now st < grace + readiness_deadline + poll_interval
           \<and> probes st = map (tick_time grace) [0..<n] \<and> (n = 29 \<or> n = 30))"
  proof (rule impI)
  assume h: "cancel_at env = None \<and> ReadyCheck svc \<noteq> []
        \<and> (\<forall>k. 0 \<le> fst (probe env k) \<and> fst (probe env k) < poll_interval
                 \<and> \<not> snd (probe env k))
        \<and> 31 \<le> fuel"
  then have nc: "cancel_at env = None" and rc: "ReadyCheck svc \<noteq> []"
    and pr: "\<forall>k. 0 \<le> fst (probe env k) \<and> fst (probe env k) < poll_interval \<and> \<not> snd (probe env k)"
    and fl: "30 - 0 + 1 \<le> fuel"
    by simp_all
  have t1: "grace < tick_time grace 0"
    using poll_interval_pos by (simp add: tick_time_def)
  have t2: "(0::nat) = 30 \<longrightarrow> grace + readiness_deadline \<le> grace" by simp
  have k: "(0::nat) \<le> 30" by simp
  from WaitReady_loop_fast [OF nc rc pr deadline_ticks k t1 t2 fl, of 1]
  obtain st' n where
    l: "WaitReady_loop fuel env svc (grace + readiness_deadline)
          \<lparr>wr_now = grace, pending = False, next_tick = tick_time grace 0,
            probes = map (tick_time grace) [0..<0], selects = 1\<rparr>
        = Some (Returns (Some (TimeoutErr (Name svc @ '': readiness timeout after 60s''))), st')"
    and b: "grace + readiness_deadline \<le> wr_now st'"
      "wr_now st' < grace + readiness_deadline + poll_interval"
      "probes st' = map (tick_time grace) [0..<n]" "n + 1 = 30 \<or> n = 30"
    by blast
  have s0: "\<lparr>wr_now = grace, pending = False, next_tick = tick_time grace 0,
            probes = map (tick_time grace) [0..<0], selects = 1\<rparr> = wr_start grace"
    by (simp add: wr_start_def tick_time_def)
  have w: "WaitReady fuel env svc
             = Some (Returns (Some (TimeoutErr (Name svc @ '': readiness timeout after 60s''))), st')"
  proof -
    have "WaitReady_loop fuel env svc (grace + readiness_deadline) (wr_start grace)
            = Some (Returns (Some (TimeoutErr (Name svc @ '': readiness timeout after 60s''))), st')"
      using l by (simp only: s0)
    then show ?thesis using nc by (simp add: WaitReady_def)
  qed
  have n: "n = 29 \<or> n = 30" using b(4) by auto
  show "\<exists>st n. WaitReady fuel env svc
                   = Some (Returns (Some (TimeoutErr (Name svc @ '': readiness timeout after 60s''))), st)
           \<and> grace + readiness_deadline \<le> wr_now st
           \<and> wr_now st < grace + readiness_deadline + poll_interval
           \<and> probes st = map (tick_time grace) [0..<n] \<and> (n = 29 \<or> n = 30)"
    apply (rule exI [of _ st'], rule exI [of _ n])
    apply (intro conjI)
    apply (rule w, rule b(1), rule b(2), rule b(3), rule n)
    done
  qed
qed

text \<open>
  A run in which the context is never cancelled and every readiness check fails after
  a tenth of a second.
\<close>

theorem C9_WaitReady_timeout_witness:
  "(cancel_at never_ready = None \<and> ReadyCheck test_service \<noteq> []
      \<and> (\<forall>k. 0 \<le> fst (probe never_ready k) \<and> fst (probe never_ready k) < poll_interval
               \<and> \<not> snd (probe never_ready k))
      \<and> (31::nat) \<le> 40)
   \<and> (\<exists>st. WaitReady 40 never_ready test_service
               = Some (Returns (Some (TimeoutErr ''postgres: readiness timeout after 60s'')), st)
         \<and> grace + readiness_deadline \<le> wr_now st
         \<and> wr_now st < grace + readiness_deadline + poll_interval
         \<and> (\<forall>p \<in> set (probes st). grace + poll_interval \<le> p))"
proof -
  have h: "cancel_at never_ready = None \<and> ReadyCheck test_service \<noteq> []
      \<and> (\<forall>k. 0 \<le> fst (probe never_ready k) \<and> fst (probe never_ready k) < poll_interval
               \<and> \<not> snd (probe never_ready k))
      \<and> (31::nat) \<le> 40"
    by (simp add: never_ready_def test_service_def poll_interval_def second_ns_def
        millisecond_ns_def)
  note t = C9_WaitReady_timeout [where fuel = 40 and env = never_ready and svc = test_service]
  have nm: "Name test_service @ '': readiness timeout after 60s''
              = ''postgres: readiness timeout after 60s''"
    by (simp add: test_service_def)
  obtain st where
    r: "WaitReady 40 never_ready test_service
          = Some (Returns (Some (TimeoutErr ''postgres: readiness timeout after 60s'')), st)"
    and b: "grace + readiness_deadline \<le> wr_now st"
      "wr_now st < grace + readiness_deadline + poll_interval"
    using t h unfolding nm by blast
  have p: "\<forall>p \<in> set (probes st). grace + poll_interval \<le> p"
    using t [of "Returns (Some (TimeoutErr ''postgres: readiness timeout after 60s''))" st] r
    by blast
  have "\<exists>st. WaitReady 40 never_ready test_service
               = Some (Returns (Some (TimeoutErr ''postgres: readiness timeout after 60s'')), st)
         \<and> grace + readiness_deadline \<le> wr_now st
         \<and> wr_now st < grace + readiness_deadline + poll_interval
         \<and> (\<forall>p \<in> set (probes st). grace + poll_interval \<le> p)"
    apply (rule exI [of _ st])
    apply (intro conjI)
    apply (rule r, rule b(1), rule b(2), rule p)
    done
  then show ?thesis using h by (intro conjI) simp_all
qed

text \<open>
  Claim C9 as stated fails in that run: no readiness check succeeds, and \<open>WaitReady\<close>
  returns the error of the timeout 65 s after the call, which is later than the
  deadline of 60 s and one polling interval of 2 s.
\<close>

theorem C9_timeout_after_grace_counterexample:
  "wr_result (WaitReady 40 never_ready test_service)
     = Some (Returns (Some (TimeoutErr ''postgres: readiness timeout after 60s'')))
   \<and> wr_time (WaitReady 40 never_ready test_service) = 65 * second_ns
   \<and> \<not> wr_time (WaitReady 40 never_ready test_service) \<le> readiness_deadline + poll_interval"
  by (simp add: never_ready_run wr_result_def wr_time_def readiness_deadline_def
      poll_interval_def second_ns_def)

end
